theory Spec2Isabelle
  imports Main "HOL-Library.AList" "HOL-Library.Sublist"
begin

section \<open>The plugin registrar (src/prjman/defn/registrar.py)\<close>

text \<open>
  Exceptions are values. \<open>RegistryError\<close> is the class declared in registrar.py; the
  three \<open>ValueError\<close>s raised there differ in their message only, so each message is a
  constructor of its own, with the name (and, for a duplicate, the registry type)
  that the message is formatted with. \<open>DuplicateKey\<close> is the Registry's own rejection.
\<close>

datatype reg_error =
    RegistryError_frozen string
  | ValueError_separator string
  | ValueError_registered string string
  | ValueError_not_needed string
  | DuplicateKey string

text \<open>
  Modelled from the spec: the class \<open>Registry\<close> (prjman/struct/registry.py) is not among
  the sources. The spec has it as "an ordered mapping from unique string identifiers to
  values, rejecting duplicate insertion": an association list in insertion order,
  \<open>name in registry\<close> as \<open>reg_contains\<close>, \<open>registry[name] = value\<close> as \<open>reg_setitem\<close>.
\<close>

type_synonym 'a registry = "(string \<times> 'a) list"

definition reg_contains :: "string \<Rightarrow> 'a registry \<Rightarrow> bool" where
  "reg_contains name r = (map_of r name \<noteq> None)"

definition reg_keys :: "'a registry \<Rightarrow> string list" where
  "reg_keys r = map fst r"

definition reg_setitem :: "string \<Rightarrow> 'a \<Rightarrow> 'a registry \<Rightarrow> reg_error + 'a registry" where
  "reg_setitem name v r =
     (if reg_contains name r then Inl (DuplicateKey name) else Inr (r @ [(name, v)]))"

text \<open>
  \<open>PrjmanRegistrarImpl\<close>: the staging counter and the five registries. Codecs, builders
  and post-processors are opaque objects, so their types are parameters.
\<close>

record ('c, 'b, 'p) registrar =
  stager :: int
  file_codecs :: "'c registry"
  file_builders :: "'b registry"
  file_handler_exceptions :: "string registry"
  post_processors :: "'p registry"
  post_processor_exceptions :: "string registry"

definition init_registrar :: "('c, 'b, 'p) registrar" where
  "init_registrar =
     \<lparr>stager = 0, file_codecs = [], file_builders = [], file_handler_exceptions = [],
      post_processors = [], post_processor_exceptions = []\<rparr>"

text \<open>\<open>__check_preconditions\<close>: the three raises, in the order of the source.\<close>

definition check_preconditions ::
  "('c, 'b, 'p) registrar \<Rightarrow> string \<Rightarrow> 'a registry \<Rightarrow> string \<Rightarrow> reg_error option" where
  "check_preconditions s name registry registry_type =
     (if stager s > 1 then Some (RegistryError_frozen name)
      else if stager s > 0 \<and> CHR '':'' \<notin> set name then Some (ValueError_separator name)
      else if reg_contains name registry then Some (ValueError_registered name registry_type)
      else None)"

text \<open>
  A method of the registrar mutates the object and may raise after a mutation, so a
  call returns the exception (if any) together with the registrar as the call left it.
\<close>

definition register_file_handler ::
  "string \<Rightarrow> 'c \<Rightarrow> 'b \<Rightarrow> ('c, 'b, 'p) registrar \<Rightarrow> reg_error option \<times> ('c, 'b, 'p) registrar" where
  "register_file_handler name codec builder s =
     (case check_preconditions s name (file_codecs s) ''file handler'' of
        Some e \<Rightarrow> (Some e, s)
      | None \<Rightarrow>
         (case reg_setitem name codec (file_codecs s) of
            Inl e \<Rightarrow> (Some e, s)
          | Inr cs \<Rightarrow>
             (let s1 = s\<lparr>file_codecs := cs\<rparr> in
              case reg_setitem name builder (file_builders s1) of
                Inl e \<Rightarrow> (Some e, s1)
              | Inr bs \<Rightarrow> (None, s1\<lparr>file_builders := bs\<rparr>))))"

definition add_file_handler_missing_message ::
  "string \<Rightarrow> string \<Rightarrow> ('c, 'b, 'p) registrar \<Rightarrow> reg_error option \<times> ('c, 'b, 'p) registrar" where
  "add_file_handler_missing_message name message s =
     (case check_preconditions s name (file_handler_exceptions s) ''message'' of
        Some e \<Rightarrow> (Some e, s)
      | None \<Rightarrow>
         if reg_contains name (file_codecs s) then (Some (ValueError_not_needed name), s)
         else (case reg_setitem name message (file_handler_exceptions s) of
                 Inl e \<Rightarrow> (Some e, s)
               | Inr ms \<Rightarrow> (None, s\<lparr>file_handler_exceptions := ms\<rparr>)))"

definition register_post_processor ::
  "string \<Rightarrow> 'p \<Rightarrow> ('c, 'b, 'p) registrar \<Rightarrow> reg_error option \<times> ('c, 'b, 'p) registrar" where
  "register_post_processor name post_processor s =
     (case check_preconditions s name (post_processors s) ''post processor'' of
        Some e \<Rightarrow> (Some e, s)
      | None \<Rightarrow>
         (case reg_setitem name post_processor (post_processors s) of
            Inl e \<Rightarrow> (Some e, s)
          | Inr ps \<Rightarrow> (None, s\<lparr>post_processors := ps\<rparr>)))"

definition add_post_processor_missing_message ::
  "string \<Rightarrow> string \<Rightarrow> ('c, 'b, 'p) registrar \<Rightarrow> reg_error option \<times> ('c, 'b, 'p) registrar" where
  "add_post_processor_missing_message name message s =
     (case check_preconditions s name (post_processor_exceptions s) ''message'' of
        Some e \<Rightarrow> (Some e, s)
      | None \<Rightarrow>
         if reg_contains name (post_processors s) then (Some (ValueError_not_needed name), s)
         else (case reg_setitem name message (post_processor_exceptions s) of
                 Inl e \<Rightarrow> (Some e, s)
               | Inr ms \<Rightarrow> (None, s\<lparr>post_processor_exceptions := ms\<rparr>)))"

definition stage :: "('c, 'b, 'p) registrar \<Rightarrow> ('c, 'b, 'p) registrar" where
  "stage s = s\<lparr>stager := stager s + 1\<rparr>"

text \<open>
  The calls a client can make on the registrar, and a history of calls run on it. A
  caller may catch an exception and go on, so a history keeps the registrar that a
  failed call leaves behind.
\<close>

datatype ('c, 'b, 'p) call =
    RegisterFileHandler string 'c 'b
  | AddFileHandlerMissingMessage string string
  | RegisterPostProcessor string 'p
  | AddPostProcessorMissingMessage string string
  | Stage

fun exec :: "('c, 'b, 'p) call \<Rightarrow> ('c, 'b, 'p) registrar \<Rightarrow> reg_error option \<times> ('c, 'b, 'p) registrar" where
  "exec (RegisterFileHandler name codec builder) s = register_file_handler name codec builder s"
| "exec (AddFileHandlerMissingMessage name message) s = add_file_handler_missing_message name message s"
| "exec (RegisterPostProcessor name post_processor) s = register_post_processor name post_processor s"
| "exec (AddPostProcessorMissingMessage name message) s = add_post_processor_missing_message name message s"
| "exec Stage s = (None, stage s)"

fun run :: "('c, 'b, 'p) call list \<Rightarrow> ('c, 'b, 'p) registrar \<Rightarrow> ('c, 'b, 'p) registrar" where
  "run [] s = s"
| "run (c # cs) s = run cs (snd (exec c s))"

fun call_name :: "('c, 'b, 'p) call \<Rightarrow> string option" where
  "call_name (RegisterFileHandler name _ _) = Some name"
| "call_name (AddFileHandlerMissingMessage name _) = Some name"
| "call_name (RegisterPostProcessor name _) = Some name"
| "call_name (AddPostProcessorMissingMessage name _) = Some name"
| "call_name Stage = None"

fun stages :: "('c, 'b, 'p) call list \<Rightarrow> nat" where
  "stages [] = 0"
| "stages (Stage # cs) = Suc (stages cs)"
| "stages (_ # cs) = stages cs"

text \<open>
  The codec registry and the builder registry hold the same names in the same order.
\<close>

definition paired :: "('c, 'b, 'p) registrar \<Rightarrow> bool" where
  "paired s = (reg_keys (file_codecs s) = reg_keys (file_builders s))"

section \<open>The git source descriptor and its codec (src/project_patcher/metadata/files/git.py)\<close>

text \<open>
  A \<open>DictObject\<close> is a JSON object: a dictionary from keys to JSON values, where
  Python's \<open>None\<close> is JSON \<open>null\<close>. Python does not check the annotations
  \<open>repository: str\<close> and \<open>branch: Optional[str]\<close>, so the fields hold whatever value
  the document has.
\<close>

datatype jvalue =
    JNull
  | JString string
  | JNumber int
  | JBool bool
  | JArray "jvalue list"
  | JObject "(string \<times> jvalue) list"

type_synonym DictObject = "string \<rightharpoonup> jvalue"

datatype py_error = KeyError string | ValueError_branch_type string

definition VALID_BRANCH_TYPES :: "string set" where
  "VALID_BRANCH_TYPES = {''branch'', ''commit'', ''tag''}"

text \<open>
  \<open>GitProjectFile\<close>. The base class \<open>ProjectFile\<close> is not among the sources; its
  constructor is called with \<open>dir\<close>, the directory the project file is located in,
  which is kept as a field.
\<close>

record GitProjectFile =
  dir :: string
  repository :: jvalue
  branch :: jvalue
  branch_type :: string

definition GitProjectFile_init ::
  "jvalue \<Rightarrow> jvalue \<Rightarrow> string \<Rightarrow> string \<Rightarrow> py_error + GitProjectFile" where
  "GitProjectFile_init repo br br_type d =
     (if br_type \<notin> VALID_BRANCH_TYPES then Inl (ValueError_branch_type br_type)
      else Inr \<lparr>dir = d, repository = repo, branch = br, branch_type = br_type\<rparr>)"

text \<open>
  Modelled from the spec: \<open>get_default\<close> (project_patcher/utils.py) is not among the
  sources. The spec has it as the "field's declared default"; for \<open>branch\<close> the
  constructor above declares \<open>None\<close>.
\<close>

definition get_default_branch :: jvalue where
  "get_default_branch = JNull"

definition encode_type :: "GitProjectFile \<Rightarrow> DictObject \<Rightarrow> DictObject" where
  "encode_type obj dict_obj =
     (let d1 = dict_obj(''repository'' \<mapsto> repository obj)
      in if branch obj \<noteq> get_default_branch then d1(branch_type obj \<mapsto> branch obj) else d1)"

text \<open>
  \<open>decode_type\<close> loops over \<open>_VALID_BRANCH_TYPES\<close>, which is a Python \<open>set\<close> of strings:
  the order in which the loop visits the three keys is the set's iteration order, which
  the declaration does not fix (string hashes are salted per process). The order is
  therefore a parameter \<open>it\<close> of the model, any list of the set's elements without
  repetition. \<open>obj['repository']\<close> is evaluated first among the constructor's arguments
  and raises \<open>KeyError\<close> when the key is absent.
\<close>

definition iteration_order :: "string list \<Rightarrow> bool" where
  "iteration_order it = (distinct it \<and> set it = VALID_BRANCH_TYPES)"

fun decode_type :: "string list \<Rightarrow> string \<Rightarrow> DictObject \<Rightarrow> py_error + GitProjectFile" where
  "decode_type [] d obj =
     (case obj ''repository'' of
        None \<Rightarrow> Inl (KeyError ''repository'')
      | Some repo \<Rightarrow> GitProjectFile_init repo JNull ''branch'' d)"
| "decode_type (branch_name # rest) d obj =
     (case obj branch_name of
        Some br \<Rightarrow>
          (case obj ''repository'' of
             None \<Rightarrow> Inl (KeyError ''repository'')
           | Some repo \<Rightarrow> GitProjectFile_init repo br branch_name d)
      | None \<Rightarrow> decode_type rest d obj)"

text \<open>
  The decoding the spec describes, for comparison with the one of the source: the keys
  tested in the declared order \<open>branch\<close>, \<open>commit\<close>, \<open>tag\<close>.
\<close>

definition decode_type_declared_order :: "string \<Rightarrow> DictObject \<Rightarrow> py_error + GitProjectFile" where
  "decode_type_declared_order d obj = decode_type [''branch'', ''commit'', ''tag''] d obj"

section \<open>Paths and the file system (what os, os.path and shutil do for project.py)\<close>

text \<open>
  The engine of project.py works on path strings with \<open>os.path.join\<close>, slices and
  \<open>os.path.dirname\<close>, and on the file system with \<open>os.walk\<close>, \<open>shutil\<close> and \<open>open\<close>.
  The model is POSIX (\<open>os.sep\<close> is \<open>/\<close>, \<open>os.extsep\<close> is \<open>.\<close>, \<open>os.linesep\<close> is a
  line feed). \<open>split_on\<close> is \<open>str.split\<close> for a separator of one character.
\<close>

fun split_on :: "char \<Rightarrow> string \<Rightarrow> string list" where
  "split_on c [] = [[]]"
| "split_on c (x # xs) =
     (if x = c then [] # split_on c xs
      else (case split_on c xs of
              [] \<Rightarrow> [[x]]
            | w # ws \<Rightarrow> (x # w) # ws))"

text \<open>\<open>os.path.join\<close> for two arguments (posixpath.py).\<close>

definition join :: "string \<Rightarrow> string \<Rightarrow> string" where
  "join a b =
     (if b \<noteq> [] \<and> hd b = CHR ''/'' then b
      else if a = [] \<or> last a = CHR ''/'' then a @ b
      else a @ ''/'' @ b)"

text \<open>
  \<open>os.path.dirname\<close> (posixpath.py): the head is the path up to and with its last
  slash; trailing slashes of the head are stripped unless the head is slashes only.
\<close>

definition dirname :: "string \<Rightarrow> string" where
  "dirname p =
     (let head = rev (dropWhile (\<lambda>c. c \<noteq> CHR ''/'') (rev p))
      in if head \<noteq> [] \<and> (\<exists>c \<in> set head. c \<noteq> CHR ''/'')
         then rev (dropWhile (\<lambda>c. c = CHR ''/'') (rev head))
         else head)"

text \<open>\<open>os.path.basename\<close>: what follows the last slash.\<close>

definition basename :: "string \<Rightarrow> string" where
  "basename p = rev (takeWhile (\<lambda>c. c \<noteq> CHR ''/'') (rev p))"

text \<open>
  How the system resolves a path string: the components between slashes, empty
  components and \<open>.\<close> skipped. The working directory of the process is the root of the
  modelled tree, so a leading slash changes nothing. The empty string names nothing.
  A path with a \<open>..\<close> component is outside the model: it resolves to nothing, and
  every operation on it fails.
\<close>

definition resolve :: "string \<Rightarrow> string list option" where
  "resolve p =
     (let cs = filter (\<lambda>c. c \<noteq> [] \<and> c \<noteq> ''.'') (split_on CHR ''/'' p)
      in if p = [] \<or> ''..'' \<in> set cs then None else Some cs)"

text \<open>
  \<open>PurePath(path).as_posix()\<close> on a POSIX system: the components joined by single
  slashes, \<open>.\<close> for the empty path (a leading slash is kept).
\<close>

definition as_posix :: "string \<Rightarrow> string" where
  "as_posix p =
     (let cs = filter (\<lambda>c. c \<noteq> [] \<and> c \<noteq> ''.'') (split_on CHR ''/'' p);
          body = concat (map (\<lambda>c. CHR ''/'' # c) cs)
      in if p \<noteq> [] \<and> hd p = CHR ''/'' then (if cs = [] then ''/'' else body)
         else if cs = [] then ''.'' else tl body)"

text \<open>
  The file system is a tree: a regular file with its content, or a directory with its
  entries in the order in which the system lists them. There are no symbolic links.
  The state of the file system is the node of the root directory.
\<close>

datatype node = File string | Dir "(string \<times> node) list"

fun lookup :: "node \<Rightarrow> string list \<Rightarrow> node option" where
  "lookup n [] = Some n"
| "lookup (File c) (x # xs) = None"
| "lookup (Dir es) (x # xs) =
     (case map_of es x of None \<Rightarrow> None | Some n \<Rightarrow> lookup n xs)"

text \<open>
  \<open>put\<close> sets the entry at a path whose parent directory exists; \<open>mkdirs\<close> creates the
  directories of a path that are missing and fails on a regular file in the way;
  \<open>remove\<close> deletes the entry at a path with all below it.
\<close>

fun put :: "node \<Rightarrow> string list \<Rightarrow> node \<Rightarrow> node option" where
  "put n [] new = Some new"
| "put (File c) (x # xs) new = None"
| "put (Dir es) [x] new = Some (Dir (AList.update x new es))"
| "put (Dir es) (x # y # ys) new =
     (case map_of es x of
        None \<Rightarrow> None
      | Some n \<Rightarrow>
         (case put n (y # ys) new of
            None \<Rightarrow> None
          | Some n' \<Rightarrow> Some (Dir (AList.update x n' es))))"

fun mkdirs :: "node \<Rightarrow> string list \<Rightarrow> node option" where
  "mkdirs (File c) xs = None"
| "mkdirs (Dir es) [] = Some (Dir es)"
| "mkdirs (Dir es) (x # xs) =
     (case mkdirs (case map_of es x of None \<Rightarrow> Dir [] | Some n \<Rightarrow> n) xs of
        None \<Rightarrow> None
      | Some n' \<Rightarrow> Some (Dir (AList.update x n' es)))"

fun remove :: "node \<Rightarrow> string list \<Rightarrow> node" where
  "remove n [] = n"
| "remove (File c) (x # xs) = File c"
| "remove (Dir es) [x] = Dir (AList.delete x es)"
| "remove (Dir es) (x # y # ys) =
     (case map_of es x of
        None \<Rightarrow> Dir es
      | Some n \<Rightarrow> Dir (AList.update x (remove n (y # ys)) es))"

text \<open>
  The exceptions the engine can meet. A missing path and a path through a regular file
  are both \<open>FileNotFoundError\<close> here (Python has \<open>NotADirectoryError\<close> for the
  second). \<open>UnicodeDecodeError\<close> is raised by reading, in text mode, a file that is not
  UTF-8. \<open>ShutilError\<close> is \<open>shutil.Error\<close>, and \<open>PatchError\<close> is whatever
  \<open>apply_patch\<close> raises on a patch that does not apply.
\<close>

datatype os_error =
    FileNotFoundError
  | FileExistsError
  | IsADirectoryError
  | NotADirectoryError
  | UnicodeDecodeError
  | ShutilError
  | PatchError

definition path_exists :: "node \<Rightarrow> string \<Rightarrow> bool" where
  "path_exists fs p = (case resolve p of None \<Rightarrow> False | Some cs \<Rightarrow> lookup fs cs \<noteq> None)"

definition isdir :: "node \<Rightarrow> string \<Rightarrow> bool" where
  "isdir fs p =
     (case resolve p of
        None \<Rightarrow> False
      | Some cs \<Rightarrow> (case lookup fs cs of Some (Dir es) \<Rightarrow> True | _ \<Rightarrow> False))"

text \<open>
  The content of a file is its bytes. A text (a Python \<open>str\<close>) is modelled by its
  UTF-8 encoding, so writing a text stores these bytes, and reading in text mode
  (\<open>open(path, mode = 'r', encoding = 'UTF-8')\<close> and \<open>read()\<close>) checks that the bytes
  of the file are well-formed UTF-8, as Python's strict decoder does (no overlong form,
  no surrogate, nothing above U+10FFFF), and then reads a carriage return, alone or
  before a line feed, as a line feed (universal newlines). \<open>utf8_first\<close> is the number
  of bytes of the first encoded character of a byte string.
\<close>

definition between :: "nat \<Rightarrow> nat \<Rightarrow> char \<Rightarrow> bool" where
  "between lo hi b = (lo \<le> (of_char b :: nat) \<and> (of_char b :: nat) \<le> hi)"

definition utf8_first :: "string \<Rightarrow> nat option" where
  "utf8_first s =
     (case s of
        [] \<Rightarrow> None
      | a # r \<Rightarrow>
         (let n = (of_char a :: nat)
          in if n < 0x80 then Some 1
             else if 0xC2 \<le> n \<and> n \<le> 0xDF then
               (case r of
                  b # r1 \<Rightarrow> if between 0x80 0xBF b then Some 2 else None
                | _ \<Rightarrow> None)
             else if 0xE0 \<le> n \<and> n \<le> 0xEF then
               (case r of
                  b # c # r2 \<Rightarrow>
                    if between (if n = 0xE0 then 0xA0 else 0x80) (if n = 0xED then 0x9F else 0xBF) b
                       \<and> between 0x80 0xBF c
                    then Some 3 else None
                | _ \<Rightarrow> None)
             else if 0xF0 \<le> n \<and> n \<le> 0xF4 then
               (case r of
                  b # c # d # r3 \<Rightarrow>
                    if between (if n = 0xF0 then 0x90 else 0x80) (if n = 0xF4 then 0x8F else 0xBF) b
                       \<and> between 0x80 0xBF c \<and> between 0x80 0xBF d
                    then Some 4 else None
                | _ \<Rightarrow> None)
             else None))"

fun utf8_valid :: "string \<Rightarrow> bool" where
  "utf8_valid [] = True"
| "utf8_valid (a # r) =
     (case utf8_first (a # r) of
        None \<Rightarrow> False
      | Some k \<Rightarrow> utf8_valid (drop (k - 1) r))"

fun universal_newlines :: "string \<Rightarrow> string" where
  "universal_newlines [] = []"
| "universal_newlines [x] = (if x = CHR 0x0D then [CHR 0x0A] else [x])"
| "universal_newlines (x # y # ys) =
     (if x = CHR 0x0D \<and> y = CHR 0x0A then CHR 0x0A # universal_newlines ys
      else if x = CHR 0x0D then CHR 0x0A # universal_newlines (y # ys)
      else x # universal_newlines (y # ys))"

definition read_bytes :: "node \<Rightarrow> string \<Rightarrow> os_error + string" where
  "read_bytes fs p =
     (case resolve p of
        None \<Rightarrow> Inl FileNotFoundError
      | Some cs \<Rightarrow>
         (case lookup fs cs of
            None \<Rightarrow> Inl FileNotFoundError
          | Some (Dir es) \<Rightarrow> Inl IsADirectoryError
          | Some (File c) \<Rightarrow> Inr c))"

text \<open>
  \<open>read_bytes\<close> is also what opening a file for reading (or with \<open>r+\<close>) does: it fails
  on a missing path and on a directory. \<open>decode_text\<close> is the \<open>read()\<close> of a file
  opened in text mode, and \<open>read_text\<close> is the two in a row.
\<close>

definition decode_text :: "string \<Rightarrow> os_error + string" where
  "decode_text c = (if utf8_valid c then Inr (universal_newlines c) else Inl UnicodeDecodeError)"

definition read_text :: "node \<Rightarrow> string \<Rightarrow> os_error + string" where
  "read_text fs p = (case read_bytes fs p of Inl e \<Rightarrow> Inl e | Inr c \<Rightarrow> decode_text c)"

text \<open>
  Writing (\<open>open(path, mode = 'w')\<close> and \<open>write\<close>, or the copy of a file into a path):
  the file is created or replaced; the parent directory must exist, and the path must
  not be a directory.
\<close>

definition write_file :: "node \<Rightarrow> string \<Rightarrow> string \<Rightarrow> os_error + node" where
  "write_file fs p c =
     (case resolve p of
        None \<Rightarrow> Inl FileNotFoundError
      | Some cs \<Rightarrow>
         (case lookup fs cs of
            Some (Dir es) \<Rightarrow> Inl IsADirectoryError
          | _ \<Rightarrow> (case put fs cs (File c) of
                    None \<Rightarrow> Inl FileNotFoundError
                  | Some fs' \<Rightarrow> Inr fs')))"

text \<open>
  \<open>os.makedirs(path)\<close> and \<open>os.makedirs(path, exist_ok = True)\<close>: with \<open>exist_ok\<close> an
  existing directory is accepted, an existing regular file never is.
\<close>

definition makedirs :: "node \<Rightarrow> string \<Rightarrow> bool \<Rightarrow> os_error + node" where
  "makedirs fs p exist_ok =
     (case resolve p of
        None \<Rightarrow> Inl FileNotFoundError
      | Some cs \<Rightarrow>
         if lookup fs cs \<noteq> None \<and> \<not> (exist_ok \<and> isdir fs p) then Inl FileExistsError
         else (case mkdirs fs cs of
                 None \<Rightarrow> Inl NotADirectoryError
               | Some fs' \<Rightarrow> Inr fs'))"

text \<open>\<open>shutil.rmtree(path)\<close>, of a directory that is not the root.\<close>

definition rmtree :: "node \<Rightarrow> string \<Rightarrow> os_error + node" where
  "rmtree fs p =
     (case resolve p of
        None \<Rightarrow> Inl FileNotFoundError
      | Some cs \<Rightarrow>
         if cs = [] then Inl ShutilError
         else (case lookup fs cs of
                 None \<Rightarrow> Inl FileNotFoundError
               | Some (File c) \<Rightarrow> Inl NotADirectoryError
               | Some (Dir es) \<Rightarrow> Inr (remove fs cs)))"

text \<open>
  \<open>shutil.copy(src, dst)\<close>: the bytes of \<open>src\<close> are written to \<open>dst\<close>, or into \<open>dst\<close>
  under the base name of \<open>src\<close> when \<open>dst\<close> is a directory. Copying a file onto
  itself is \<open>SameFileError\<close>, a \<open>shutil.Error\<close>.
\<close>

definition copy :: "node \<Rightarrow> string \<Rightarrow> string \<Rightarrow> os_error + node" where
  "copy fs src dst =
     (let dst' = (if isdir fs dst then join dst (basename src) else dst)
      in if path_exists fs src \<and> resolve src = resolve dst' then Inl ShutilError
         else case read_bytes fs src of
                Inl e \<Rightarrow> Inl e
              | Inr c \<Rightarrow> write_file fs dst' c)"

text \<open>
  \<open>shutil.copytree(src, dst, dirs_exist_ok = True)\<close>, on the entries of the source
  directory and of the destination directory. A regular file is copied with \<open>copy2\<close>:
  onto the entry of its name, or into it when the destination has a directory of that
  name. A directory is copied by the recursive call, whose \<open>os.makedirs\<close> takes the
  directory of the same name, makes it when it is missing, and fails on a regular file.
  copytree collects the errors of its entries and raises \<open>shutil.Error\<close> at the end;
  as the exception is all the engine sees, the model stops at the first.
\<close>

definition copy2 :: "string \<Rightarrow> string \<Rightarrow> (string \<times> node) list \<Rightarrow> os_error + (string \<times> node) list" where
  "copy2 name c des =
     (case map_of des name of
        Some (Dir sub) \<Rightarrow>
          (case map_of sub name of
             Some (Dir x) \<Rightarrow> Inl IsADirectoryError
           | _ \<Rightarrow> Inr (AList.update name (Dir (AList.update name (File c) sub)) des))
      | _ \<Rightarrow> Inr (AList.update name (File c) des))"

definition dest_entries :: "(string \<times> node) list \<Rightarrow> string \<Rightarrow> os_error + (string \<times> node) list" where
  "dest_entries des name =
     (case map_of des name of
        None \<Rightarrow> Inr []
      | Some (Dir d) \<Rightarrow> Inr d
      | Some (File c) \<Rightarrow> Inl FileExistsError)"

fun copy_entries :: "(string \<times> node) list \<Rightarrow> (string \<times> node) list \<Rightarrow> os_error + (string \<times> node) list" where
  "copy_entries [] des = Inr des"
| "copy_entries ((name, File c) # ses) des =
     (case copy2 name c des of
        Inl e \<Rightarrow> Inl e
      | Inr des' \<Rightarrow> copy_entries ses des')"
| "copy_entries ((name, Dir sub) # ses) des =
     (case dest_entries des name of
        Inl e \<Rightarrow> Inl e
      | Inr d \<Rightarrow>
         (case copy_entries sub d of
            Inl e \<Rightarrow> Inl e
          | Inr d' \<Rightarrow> copy_entries ses (AList.update name (Dir d') des)))"

definition copytree :: "node \<Rightarrow> string \<Rightarrow> string \<Rightarrow> os_error + node" where
  "copytree fs src dst =
     (case (resolve src, resolve dst) of
        (Some scs, Some dcs) \<Rightarrow>
          (case lookup fs scs of
             Some (Dir ses) \<Rightarrow>
               (case makedirs fs dst True of
                  Inl e \<Rightarrow> Inl e
                | Inr fs1 \<Rightarrow>
                   (case lookup fs1 dcs of
                      Some (Dir des) \<Rightarrow>
                        (case copy_entries ses des of
                           Inl e \<Rightarrow> Inl ShutilError
                         | Inr des' \<Rightarrow>
                            (case put fs1 dcs (Dir des') of
                               None \<Rightarrow> Inl FileNotFoundError
                             | Some fs2 \<Rightarrow> Inr fs2))
                    | _ \<Rightarrow> Inl FileExistsError))
           | Some (File c) \<Rightarrow> Inl NotADirectoryError
           | None \<Rightarrow> Inl FileNotFoundError)
      | _ \<Rightarrow> Inl FileNotFoundError)"

text \<open>
  \<open>os.walk(top)\<close>, top-down: the directory itself with the names of its directories
  and of its regular files, then each of its directories in turn, under the path
  \<open>os.path.join(top, name)\<close>. Nothing is produced for a \<open>top\<close> that is not a directory.
  The walk is taken on the tree as it is when the loop starts; the loops of the engine
  write under other directories than the one they walk.
\<close>

fun walk_node :: "string \<Rightarrow> node \<Rightarrow> (string \<times> string list \<times> string list) list" where
  "walk_node tp (File c) = []"
| "walk_node tp (Dir es) =
     (tp, [name. (name, Dir d) \<leftarrow> es], [name. (name, File c) \<leftarrow> es])
     # concat (map (\<lambda>(name, sub). walk_node (join tp name) sub) es)"

definition walk :: "node \<Rightarrow> string \<Rightarrow> (string \<times> string list \<times> string list) list" where
  "walk fs tp =
     (case resolve tp of
        None \<Rightarrow> []
      | Some cs \<Rightarrow> (case lookup fs cs of None \<Rightarrow> [] | Some n \<Rightarrow> walk_node tp n))"

text \<open>
  The nested loops \<open>for subdir, _, files in os.walk(top): for file in files:\<close> visit
  these pairs, in this order.
\<close>

definition walk_files :: "node \<Rightarrow> string \<Rightarrow> (string \<times> string) list" where
  "walk_files fs tp = concat (map (\<lambda>(subdir, dirs, files). map (Pair subdir) files) (walk fs tp))"

text \<open>A loop whose body may raise: the first exception ends it.\<close>

fun for_each :: "('a \<Rightarrow> 's \<Rightarrow> 'e + 's) \<Rightarrow> 'a list \<Rightarrow> 's \<Rightarrow> 'e + 's" where
  "for_each body [] s = Inr s"
| "for_each body (x # xs) s =
     (case body x s of Inl e \<Rightarrow> Inl e | Inr s' \<Rightarrow> for_each body xs s')"


section \<open>The reconciliation engine (src/project_patcher/workspace/project.py)\<close>

text \<open>
  The module project_patcher/workspace/patcher.py, with \<open>create_patch\<close> and
  \<open>apply_patch\<close>, is not among the sources. The engine is therefore modelled over any
  two such functions: \<open>cp clean work filename time\<close> for
  \<open>create_patch(clean, work, filename = ..., time = ...)\<close>, a string, and
  \<open>ap text patch\<close> for \<open>apply_patch(text, patch)\<close>, a string or an exception.
\<close>

definition PATCH_EXTENSION :: string where
  "PATCH_EXTENSION = ''patch''"

text \<open>
  The slice \<open>patch_path[(len(patch_dir) + 1):-(len(_PATCH_EXTENSION) + 1)]\<close> of
  \<open>apply_patches\<close>: the negative end counts from the end of the string and stops at its
  start, as the subtraction of natural numbers does.
\<close>

definition patch_rel_path :: "string \<Rightarrow> string \<Rightarrow> string" where
  "patch_rel_path patch_dir patch_path =
     drop (length patch_dir + 1)
       (take (length patch_path - (length PATCH_EXTENSION + 1)) patch_path)"

text \<open>
  The body of the loops of \<open>apply_patches\<close>: both files are opened (the patch for
  reading, then the work file with \<open>r+\<close>, so it must exist); the work file is read,
  then the patch; the patched text is written to the work file from its start, and the
  file is truncated there.
\<close>

definition apply_patch_file ::
  "(string \<Rightarrow> string \<Rightarrow> os_error + string) \<Rightarrow> string \<Rightarrow> string \<Rightarrow> string \<times> string \<Rightarrow> node
     \<Rightarrow> os_error + node" where
  "apply_patch_file ap working_dir patch_dir sf fs =
     (let patch_path = join (fst sf) (snd sf);
          rel_path = patch_rel_path patch_dir patch_path;
          work_path = join working_dir rel_path
      in case read_bytes fs patch_path of
           Inl e \<Rightarrow> Inl e
         | Inr patch_file \<Rightarrow>
            (case read_bytes fs work_path of
               Inl e \<Rightarrow> Inl e
             | Inr work_file \<Rightarrow>
                (case decode_text work_file of
                   Inl e \<Rightarrow> Inl e
                 | Inr work_text \<Rightarrow>
                    (case decode_text patch_file of
                       Inl e \<Rightarrow> Inl e
                     | Inr patch_text \<Rightarrow>
                        (case ap work_text patch_text of
                           Inl e \<Rightarrow> Inl e
                         | Inr work_patch \<Rightarrow> write_file fs work_path work_patch)))))"

definition apply_patches ::
  "(string \<Rightarrow> string \<Rightarrow> os_error + string) \<Rightarrow> string \<Rightarrow> string \<Rightarrow> node \<Rightarrow> os_error + node" where
  "apply_patches ap working_dir patch_dir fs =
     for_each (apply_patch_file ap working_dir patch_dir) (walk_files fs patch_dir) fs"

definition setup_working ::
  "(string \<Rightarrow> string \<Rightarrow> os_error + string) \<Rightarrow> string \<Rightarrow> string \<Rightarrow> string \<Rightarrow> string \<Rightarrow> node
     \<Rightarrow> os_error + node" where
  "setup_working ap clean_dir working_dir patch_dir out_dir fs =
     (case (if path_exists fs working_dir \<and> isdir fs working_dir
            then rmtree fs working_dir else Inr fs) of
        Inl e \<Rightarrow> Inl e
      | Inr fs1 \<Rightarrow>
         (case makedirs fs1 working_dir False of
            Inl e \<Rightarrow> Inl e
          | Inr fs2 \<Rightarrow>
             (case copytree fs2 clean_dir working_dir of
                Inl e \<Rightarrow> Inl e
              | Inr fs3 \<Rightarrow>
                 (case (if path_exists fs3 out_dir \<and> isdir fs3 out_dir
                        then copytree fs3 out_dir working_dir else Inr fs3) of
                    Inl e \<Rightarrow> Inl e
                  | Inr fs4 \<Rightarrow>
                     if path_exists fs4 patch_dir \<and> isdir fs4 patch_dir
                     then apply_patches ap working_dir patch_dir fs4
                     else Inr fs4))))"

text \<open>
  \<open>generate_patch\<close> opens the work file, then the clean file, and reads the clean file,
  then the work file.
\<close>

definition generate_patch ::
  "(string \<Rightarrow> string \<Rightarrow> string \<Rightarrow> string \<Rightarrow> string) \<Rightarrow> string \<Rightarrow> string \<Rightarrow> string \<Rightarrow> string
     \<Rightarrow> string \<Rightarrow> node \<Rightarrow> os_error + node" where
  "generate_patch cp path work_path clean_path patch_dir time fs =
     (case read_bytes fs work_path of
        Inl e \<Rightarrow> Inl e
      | Inr work_file \<Rightarrow>
         (case read_bytes fs clean_path of
            Inl e \<Rightarrow> Inl e
          | Inr clean_file \<Rightarrow>
             (case decode_text clean_file of
                Inl e \<Rightarrow> Inl e
              | Inr clean_text \<Rightarrow>
                 (case decode_text work_file of
                    Inl e \<Rightarrow> Inl e
                  | Inr work_text \<Rightarrow>
                     (let patch_text = cp clean_text work_text (as_posix path) time
                      in if patch_text \<noteq> [] then
                           (let patch_path = join patch_dir (path @ ''.'' @ PATCH_EXTENSION)
                            in case makedirs fs (dirname patch_path) True of
                                 Inl e \<Rightarrow> Inl e
                               | Inr fs1 \<Rightarrow> write_file fs1 patch_path patch_text)
                         else Inr fs)))))"

definition output_file :: "string \<Rightarrow> string \<Rightarrow> string \<Rightarrow> node \<Rightarrow> os_error + node" where
  "output_file path work_path out_dir fs =
     (let out_path = join out_dir path
      in case makedirs fs (dirname out_path) True of
           Inl e \<Rightarrow> Inl e
         | Inr fs1 \<Rightarrow> copy fs1 work_path out_path)"

text \<open>The body of the loops of \<open>output_working\<close>.\<close>

definition output_working_file ::
  "(string \<Rightarrow> string \<Rightarrow> string \<Rightarrow> string \<Rightarrow> string) \<Rightarrow> string \<Rightarrow> string \<Rightarrow> string \<Rightarrow> string
     \<Rightarrow> string \<Rightarrow> string \<times> string \<Rightarrow> node \<Rightarrow> os_error + node" where
  "output_working_file cp clean_dir working_dir patch_dir out_dir time sf fs =
     (let work_path = join (fst sf) (snd sf);
          rel_path = drop (length working_dir + 1) work_path;
          clean_path = join clean_dir rel_path
      in if path_exists fs clean_path
         then generate_patch cp rel_path work_path clean_path patch_dir time fs
         else output_file rel_path work_path out_dir fs)"

definition output_working ::
  "(string \<Rightarrow> string \<Rightarrow> string \<Rightarrow> string \<Rightarrow> string) \<Rightarrow> string \<Rightarrow> string \<Rightarrow> string \<Rightarrow> string
     \<Rightarrow> string \<Rightarrow> node \<Rightarrow> os_error + node" where
  "output_working cp clean_dir working_dir patch_dir out_dir time fs =
     (case (if path_exists fs out_dir \<and> isdir fs out_dir then rmtree fs out_dir else Inr fs) of
        Inl e \<Rightarrow> Inl e
      | Inr fs1 \<Rightarrow>
         (case (if path_exists fs1 patch_dir \<and> isdir fs1 patch_dir
                then rmtree fs1 patch_dir else Inr fs1) of
            Inl e \<Rightarrow> Inl e
          | Inr fs2 \<Rightarrow>
             for_each (output_working_file cp clean_dir working_dir patch_dir out_dir time)
               (walk_files fs2 working_dir) fs2))"

section \<open>Notions for the properties of the engine\<close>

text \<open>
  What a path is in a state of the file system: nothing, a regular file with its
  content, or a directory.
\<close>

datatype kind = F string | D

definition view :: "node \<Rightarrow> string list \<Rightarrow> kind option" where
  "view fs q = (case lookup fs q of None \<Rightarrow> None | Some (File c) \<Rightarrow> Some (F c) | Some (Dir es) \<Rightarrow> Some D)"

definition is_file :: "node \<Rightarrow> string list \<Rightarrow> bool" where
  "is_file fs q = (\<exists>c. lookup fs q = Some (File c))"

text \<open>The path of the work file that \<open>apply_patches\<close> opens for an entry of the walk.\<close>

definition target :: "string \<Rightarrow> string \<Rightarrow> string \<times> string \<Rightarrow> string" where
  "target wd pd sf = join wd (patch_rel_path pd (join (fst sf) (snd sf)))"

text \<open>
  What a work file with the bytes \<open>c\<close> holds after the patches \<open>ps\<close>, one after the
  other: each time the file is read as text and the patched text is written back.
\<close>

fun patched :: "(string \<Rightarrow> string \<Rightarrow> os_error + string) \<Rightarrow> string \<Rightarrow> string list \<Rightarrow> os_error + string" where
  "patched ap c [] = Inr c"
| "patched ap c (p # ps) =
     (case decode_text c of
        Inl e \<Rightarrow> Inl e
      | Inr w \<Rightarrow> (case ap w p of Inl e \<Rightarrow> Inl e | Inr out \<Rightarrow> patched ap out ps))"

text \<open>
  The names a file system has for its entries: not empty, without a slash, neither
  \<open>.\<close> nor \<open>..\<close>. In a well-formed tree every entry has such a name and no
  directory has two entries of one name.
\<close>

definition valid_name :: "string \<Rightarrow> bool" where
  "valid_name n = (n \<noteq> [] \<and> CHR ''/'' \<notin> set n \<and> n \<noteq> ''.'' \<and> n \<noteq> ''..'')"

fun wf_node :: "node \<Rightarrow> bool" where
  "wf_node (File c) = True"
| "wf_node (Dir es) = (distinct (map fst es) \<and> list_all (\<lambda>(n, sub). valid_name n \<and> wf_node sub) es)"

text \<open>A tree of text files: every regular file in it is UTF-8.\<close>

fun all_text :: "node \<Rightarrow> bool" where
  "all_text (File c) = utf8_valid c"
| "all_text (Dir es) = list_all (\<lambda>(n, sub). all_text sub) es"

text \<open>
  The path string of the components \<open>R\<close> below \<open>tp\<close>, and the string of \<open>R\<close>
  alone, as the loops build them with \<open>os.path.join\<close> and cut them with slices.
\<close>

definition path_of :: "string \<Rightarrow> string list \<Rightarrow> string" where
  "path_of tp R = tp @ concat (map (\<lambda>n. CHR ''/'' # n) R)"

definition rel_of :: "string list \<Rightarrow> string" where
  "rel_of R = tl (concat (map (\<lambda>n. CHR ''/'' # n) R))"

text \<open>A string that \<open>os.path.join\<close> extends with a slash: not empty, no slash at its end.\<close>

definition open_end :: "string \<Rightarrow> bool" where
  "open_end a = (a \<noteq> [] \<and> last a \<noteq> CHR ''/'')"

text \<open>
  What \<open>if os.path.exists(d) and os.path.isdir(d): shutil.rmtree(d)\<close> leaves, for
  a directory \<open>d\<close> named directly below the root.
\<close>

definition drop_dir :: "node \<Rightarrow> string \<Rightarrow> node" where
  "drop_dir fs d = (if isdir fs d then remove fs [d] else fs)"

text \<open>
  One write of the capture loop, from state \<open>s\<close> to state \<open>s'\<close>: the directories of
  the path \<open>P\<close> are made (none of them was a file), and the file at \<open>T\<close> (not a
  directory before) gets the content \<open>x\<close>; nothing else changes.
\<close>

definition writes :: "node \<Rightarrow> node \<Rightarrow> string list \<Rightarrow> string list \<Rightarrow> string \<Rightarrow> bool" where
  "writes s s' T P x =
     ((\<forall>q. view s' q = (if q = T then Some (F x) else if prefix q P then Some D else view s q)) \<and>
      (\<forall>q c. prefix q P \<longrightarrow> view s q \<noteq> Some (F c)) \<and> view s T \<noteq> Some D)"

text \<open>
  What capture is to write for the file \<open>e\<close> of the working tree (its directories and
  its name), read off the state \<open>b\<close> in which the loop starts: the path and the
  content of the output file or of the patch, or nothing.
\<close>

definition artifact ::
  "(string \<Rightarrow> string \<Rightarrow> string \<Rightarrow> string \<Rightarrow> string) \<Rightarrow> string \<Rightarrow> string \<Rightarrow> string \<Rightarrow> string \<Rightarrow> string
     \<Rightarrow> node \<Rightarrow> string list \<times> string \<Rightarrow> (string list \<times> string) option" where
  "artifact cp cd wd pd od time b e =
     (case view b (wd # fst e @ [snd e]) of
        Some (F w) \<Rightarrow>
          (case view b (cd # fst e @ [snd e]) of
             None \<Rightarrow> Some (od # fst e @ [snd e], w)
           | Some (F c) \<Rightarrow>
               (let d = cp (universal_newlines c) (universal_newlines w)
                          (as_posix (rel_of (fst e @ [snd e]))) time
                in if d = [] then None else Some (pd # fst e @ [snd e @ ''.patch''], d))
           | Some D \<Rightarrow> None)
      | _ \<Rightarrow> None)"

text \<open>
  The invariant of the capture loop: the working tree and the clean tree are as in
  \<open>b\<close>, and every directory below the output directory is a directory of the
  working tree.
\<close>

definition inv_capture :: "string \<Rightarrow> string \<Rightarrow> string \<Rightarrow> node \<Rightarrow> node \<Rightarrow> bool" where
  "inv_capture cd wd od b s =
     ((\<forall>q. view s (wd # q) = view b (wd # q)) \<and>
      (\<forall>q. view s (cd # q) = view b (cd # q)) \<and>
      (\<forall>q. view s (od # q) = Some D \<longrightarrow> q = [] \<or> view b (wd # q) = Some D))"

section \<open>The patcher (project_patcher/workspace/patcher.py)\<close>

text \<open>
  Modelled from the spec: the module project_patcher/workspace/patcher.py, with
  \<open>create_patch\<close> and \<open>apply_patch\<close>, is not among the sources. The spec has the patch
  as "a textual delta" in "a unified-diff-style textual format", empty when the two
  texts are equal, and has the application fail when the "target content no longer
  matches expectations". The model is a diff by lines with one hunk: the two header
  lines with the file name and the time, the hunk header \<open>@@ -i,n +i,m @@\<close> with the
  number of the first line that differs and the numbers of lines removed and added, the
  removed lines after a \<open>-\<close> and the added lines after a \<open>+\<close>; a line that does not end
  with a line feed is closed with one and followed by the marker line
  \<open>\ No newline at end of file\<close>. Applying a patch reads the hunk back, checks that
  the text has the removed lines at that place and puts the added lines there.
\<close>

definition NL :: char where
  "NL = CHR 0x0A"

definition marker :: string where
  "marker = CHR 0x5C # '' No newline at end of file'' @ [NL]"

text \<open>The lines of a text, each with its line feed (the last may have none).\<close>

fun lines_of :: "string \<Rightarrow> string list" where
  "lines_of [] = []"
| "lines_of (x # xs) =
     (if x = NL then [x] # lines_of xs
      else (case lines_of xs of
              [] \<Rightarrow> [[x]]
            | l # ls \<Rightarrow> (x # l) # ls))"

text \<open>Decimal numbers, written and read.\<close>

definition digit :: "nat \<Rightarrow> char" where
  "digit d = char_of (48 + d)"

definition is_digit :: "char \<Rightarrow> bool" where
  "is_digit c = (48 \<le> (of_char c :: nat) \<and> (of_char c :: nat) \<le> 57)"

function show_nat :: "nat \<Rightarrow> string" where
  "show_nat n = (if n < 10 then [digit n] else show_nat (n div 10) @ [digit (n mod 10)])"
  by pat_completeness auto
termination
  by (relation "measure id") auto

declare show_nat.simps [simp del]

definition parse_nat :: "string \<Rightarrow> nat" where
  "parse_nat ds = foldl (\<lambda>acc c. 10 * acc + (of_char c - 48)) 0 ds"

definition read_nat :: "string \<Rightarrow> (nat \<times> string) option" where
  "read_nat s =
     (let ds = takeWhile is_digit s
      in if ds = [] then None else Some (parse_nat ds, dropWhile is_digit s))"

definition expect :: "string \<Rightarrow> string \<Rightarrow> string option" where
  "expect p s = (if take (length p) s = p then Some (drop (length p) s) else None)"

text \<open>The hunk: where the two lists of lines part, what is removed, what is added.\<close>

fun common_prefix :: "'a list \<Rightarrow> 'a list \<Rightarrow> 'a list" where
  "common_prefix (x # xs) (y # ys) = (if x = y then x # common_prefix xs ys else [])"
| "common_prefix xs ys = []"

definition hunk_of :: "string list \<Rightarrow> string list \<Rightarrow> nat \<times> string list \<times> string list" where
  "hunk_of la lb =
     (let p = common_prefix la lb;
          ra = drop (length p) la;
          rb = drop (length p) lb;
          s = common_prefix (rev ra) (rev rb)
      in (length p + 1, take (length ra - length s) ra, take (length rb - length s) rb))"

definition hunk_header :: "nat \<Rightarrow> nat \<Rightarrow> nat \<Rightarrow> string" where
  "hunk_header i n m =
     ''@@ -'' @ show_nat i @ '','' @ show_nat n @ '' +'' @ show_nat i @ '','' @ show_nat m
       @ '' @@'' @ [NL]"

definition render_line :: "char \<Rightarrow> string \<Rightarrow> string list" where
  "render_line c l = (if l \<noteq> [] \<and> last l = NL then [c # l] else [c # l @ [NL], marker])"

definition patch_lines :: "string \<Rightarrow> string \<Rightarrow> nat \<times> string list \<times> string list \<Rightarrow> string list" where
  "patch_lines filename time h =
     (case h of (i, removed, added) \<Rightarrow>
        [''--- '' @ filename @ [CHR 0x09] @ time @ [NL],
         ''+++ '' @ filename @ [CHR 0x09] @ time @ [NL],
         hunk_header i (length removed) (length added)]
        @ concat (map (render_line CHR ''-'') removed)
        @ concat (map (render_line CHR ''+'') added))"

definition create_patch :: "string \<Rightarrow> string \<Rightarrow> string \<Rightarrow> string \<Rightarrow> string" where
  "create_patch a b filename time =
     (if a = b then []
      else concat (patch_lines filename time (hunk_of (lines_of a) (lines_of b))))"

definition parse_header :: "string \<Rightarrow> (nat \<times> nat \<times> nat) option" where
  "parse_header l =
     (case expect ''@@ -'' l of None \<Rightarrow> None | Some r1 \<Rightarrow>
      case read_nat r1 of None \<Rightarrow> None | Some (i, r2) \<Rightarrow>
      case expect '','' r2 of None \<Rightarrow> None | Some r3 \<Rightarrow>
      case read_nat r3 of None \<Rightarrow> None | Some (n, r4) \<Rightarrow>
      case expect '' +'' r4 of None \<Rightarrow> None | Some r5 \<Rightarrow>
      case read_nat r5 of None \<Rightarrow> None | Some (j, r6) \<Rightarrow>
      case expect '','' r6 of None \<Rightarrow> None | Some r7 \<Rightarrow>
      case read_nat r7 of None \<Rightarrow> None | Some (m, r8) \<Rightarrow>
      if r8 = '' @@'' @ [NL] then Some (i, n, m) else None)"

fun take_lines :: "char \<Rightarrow> nat \<Rightarrow> string list \<Rightarrow> (string list \<times> string list) option" where
  "take_lines c 0 ls = Some ([], ls)"
| "take_lines c (Suc k) [] = None"
| "take_lines c (Suc k) (l # ls) =
     (if l \<noteq> [] \<and> hd l = c then
        (if ls \<noteq> [] \<and> hd ls = marker
         then (case take_lines c k (tl ls) of
                 None \<Rightarrow> None
               | Some (got, rest) \<Rightarrow> Some (butlast (tl l) # got, rest))
         else (case take_lines c k ls of
                 None \<Rightarrow> None
               | Some (got, rest) \<Rightarrow> Some (tl l # got, rest)))
      else None)"

definition parse_patch :: "string list \<Rightarrow> (nat \<times> string list \<times> string list) option" where
  "parse_patch pl =
     (case pl of
        h1 # h2 # h3 # body \<Rightarrow>
          (if take 4 h1 = ''--- '' \<and> take 4 h2 = ''+++ '' then
             (case parse_header h3 of
                None \<Rightarrow> None
              | Some (i, n, m) \<Rightarrow>
                 (case take_lines CHR ''-'' n body of
                    None \<Rightarrow> None
                  | Some (removed, body') \<Rightarrow>
                     (case take_lines CHR ''+'' m body' of
                        Some (added, []) \<Rightarrow> Some (i, removed, added)
                      | _ \<Rightarrow> None)))
           else None)
      | _ \<Rightarrow> None)"

definition apply_patch :: "string \<Rightarrow> string \<Rightarrow> os_error + string" where
  "apply_patch text patch =
     (if patch = [] then Inr text
      else (case parse_patch (lines_of patch) of
              None \<Rightarrow> Inl PatchError
            | Some (i, removed, added) \<Rightarrow>
               (let tls = lines_of text
                in if 1 \<le> i \<and> take (length removed) (drop (i - 1) tls) = removed
                   then Inr (concat (take (i - 1) tls @ added @ drop (i - 1 + length removed) tls))
                   else Inl PatchError)))"

text \<open>Notions for the properties of the patcher: a line of a text, a line of a patch.\<close>

definition content_line :: "string \<Rightarrow> bool" where
  "content_line l = (l \<noteq> [] \<and> NL \<notin> set (butlast l))"

definition proper_line :: "string \<Rightarrow> bool" where
  "proper_line l = (l \<noteq> [] \<and> last l = NL \<and> NL \<notin> set (butlast l))"

section \<open>Properties of the registrar\<close>

lemma reg_contains_keys: "reg_contains name r = (name \<in> set (reg_keys r))"
  by (simp add: reg_contains_def reg_keys_def map_of_eq_None_iff)

lemma exec_stager:
  "call_name c = Some name \<Longrightarrow> stager (snd (exec c s)) = stager s"
  by (cases c)
     (auto simp: register_file_handler_def add_file_handler_missing_message_def
        register_post_processor_def add_post_processor_missing_message_def Let_def
        split: option.splits sum.splits)

lemma stager_run: "stager (run cs s) = stager s + int (stages cs)"
proof (induction cs arbitrary: s)
  case Nil
  then show ?case by simp
next
  case (Cons c cs)
  show ?case
  proof (cases c)
    case Stage
    then show ?thesis using Cons.IH [of "stage s"] by (simp add: stage_def)
  qed (use Cons.IH exec_stager [of c _ s] in \<open>auto\<close>)
qed

lemma frozen_exec:
  "1 < stager s \<Longrightarrow> call_name c = Some name \<Longrightarrow>
   exec c s = (Some (RegistryError_frozen name), s)"
  by (cases c)
     (auto simp: register_file_handler_def add_file_handler_missing_message_def
        register_post_processor_def add_post_processor_missing_message_def
        check_preconditions_def)

lemma separator_exec:
  "stager s = 1 \<Longrightarrow> call_name c = Some name \<Longrightarrow> CHR '':'' \<notin> set name \<Longrightarrow>
   exec c s = (Some (ValueError_separator name), s)"
  by (cases c)
     (auto simp: register_file_handler_def add_file_handler_missing_message_def
        register_post_processor_def add_post_processor_missing_message_def
        check_preconditions_def)

lemma internal_exec:
  "stager s = 0 \<Longrightarrow> call_name c = Some name \<Longrightarrow>
   fst (exec c s) \<noteq> Some (RegistryError_frozen name) \<and>
   fst (exec c s) \<noteq> Some (ValueError_separator name)"
  by (cases c)
     (auto simp: register_file_handler_def add_file_handler_missing_message_def
        register_post_processor_def add_post_processor_missing_message_def
        check_preconditions_def reg_setitem_def Let_def split: if_splits)

lemma fresh_exec:
  "call_name c = Some name \<Longrightarrow> fst (exec c init_registrar) = None"
  by (cases c)
     (auto simp: register_file_handler_def add_file_handler_missing_message_def
        register_post_processor_def add_post_processor_missing_message_def
        check_preconditions_def reg_setitem_def reg_contains_def init_registrar_def Let_def)

lemma paired_exec: "paired s \<Longrightarrow> paired (snd (exec c s))"
  by (cases c)
     (auto simp: paired_def register_file_handler_def add_file_handler_missing_message_def
        register_post_processor_def add_post_processor_missing_message_def stage_def
        reg_setitem_def reg_contains_keys Let_def reg_keys_def
        split: option.splits)

lemma paired_run: "paired s \<Longrightarrow> paired (run cs s)"
  by (induction cs arbitrary: s) (simp_all add: paired_exec)

lemma paired_init: "paired init_registrar"
  by (simp add: paired_def init_registrar_def reg_keys_def)

lemma register_paired:
  assumes "paired s"
  shows "register_file_handler name codec builder s =
           (case check_preconditions s name (file_codecs s) ''file handler'' of
              Some e \<Rightarrow> (Some e, s)
            | None \<Rightarrow> (None, s\<lparr>file_codecs := file_codecs s @ [(name, codec)],
                               file_builders := file_builders s @ [(name, builder)]\<rparr>))"
  using assms
  by (auto simp: paired_def register_file_handler_def check_preconditions_def
        reg_setitem_def reg_contains_keys Let_def)

text \<open>
  C6. Staging monotonicity, for a registrar that started fresh and has seen any history
  \<open>cs\<close> of calls: once the history holds two \<open>stage()\<close> calls (or more), every
  registration call (provider, post-processor, either missing message) raises the
  frozen-registry error and leaves the registrar as it was; with exactly one
  \<open>stage()\<close> call, a name with no \<open>:\<close> raises the naming error and leaves the registrar
  as it was; with no \<open>stage()\<close> call, a registration raises neither of the two, and on
  the fresh registrar itself every registration is accepted, separator or not.
\<close>

theorem staging_monotonicity:
  assumes "call_name c = Some name"
  shows "(2 \<le> stages cs \<longrightarrow>
            exec c (run cs init_registrar) =
              (Some (RegistryError_frozen name), run cs init_registrar)) \<and>
         (stages cs = 1 \<and> CHR '':'' \<notin> set name \<longrightarrow>
            exec c (run cs init_registrar) =
              (Some (ValueError_separator name), run cs init_registrar)) \<and>
         (stages cs = 0 \<longrightarrow>
            fst (exec c (run cs init_registrar)) \<noteq> Some (RegistryError_frozen name) \<and>
            fst (exec c (run cs init_registrar)) \<noteq> Some (ValueError_separator name)) \<and>
         fst (exec c init_registrar) = None"
proof -
  have st: "stager (run cs init_registrar) = int (stages cs)"
    by (simp add: stager_run init_registrar_def)
  have "2 \<le> stages cs \<Longrightarrow> 1 < stager (run cs init_registrar)"
    using st by simp
  moreover have "stages cs = 1 \<Longrightarrow> stager (run cs init_registrar) = 1"
    using st by simp
  moreover have "stages cs = 0 \<Longrightarrow> stager (run cs init_registrar) = 0"
    using st by simp
  ultimately show ?thesis
    using assms frozen_exec separator_exec internal_exec fresh_exec by blast
qed

theorem staging_monotonicity_witness:
  "exec (AddPostProcessorMissingMessage ''ns:unpack'' ''install it'')
      (run [Stage, RegisterPostProcessor ''ns:notebook'' (0::nat), Stage]
         (init_registrar :: (nat, nat, nat) registrar)) =
     (Some (RegistryError_frozen ''ns:unpack''),
      run [Stage, RegisterPostProcessor ''ns:notebook'' 0, Stage] init_registrar) \<and>
   exec (RegisterFileHandler ''git'' (0::nat) (1::nat))
      (run [Stage] (init_registrar :: (nat, nat, nat) registrar)) =
     (Some (ValueError_separator ''git''), run [Stage] init_registrar) \<and>
   fst (exec (RegisterFileHandler ''git'' (0::nat) (1::nat))
      (init_registrar :: (nat, nat, nat) registrar)) = None"
proof -
  have a: "call_name (AddPostProcessorMissingMessage ''ns:unpack'' ''install it''
             :: (nat, nat, nat) call) = Some ''ns:unpack''"
    by simp
  have b: "call_name (RegisterFileHandler ''git'' (0::nat) (1::nat) :: (nat, nat, nat) call) =
             Some ''git''"
    by simp
  show ?thesis
    using staging_monotonicity [OF a, of "[Stage, RegisterPostProcessor ''ns:notebook'' 0, Stage]"]
      staging_monotonicity [OF b, of "[Stage]"]
    by simp
qed

text \<open>
  C8. On a registrar that started fresh and has seen any history of calls,
  \<open>register_file_handler\<close> either raises one of the three precondition errors
  (frozen, naming, duplicate) and leaves the registrar as it was, or stores the codec
  and the builder under the name, both; and the codec registry and the builder
  registry hold the same names (in the same order).
\<close>

theorem register_file_handler_atomic:
  "reg_keys (file_codecs (run cs init_registrar)) =
     reg_keys (file_builders (run cs init_registrar)) \<and>
   register_file_handler name codec builder (run cs init_registrar) =
     (if 1 < stager (run cs init_registrar) then
        (Some (RegistryError_frozen name), run cs init_registrar)
      else if 0 < stager (run cs init_registrar) \<and> CHR '':'' \<notin> set name then
        (Some (ValueError_separator name), run cs init_registrar)
      else if reg_contains name (file_codecs (run cs init_registrar)) then
        (Some (ValueError_registered name ''file handler''), run cs init_registrar)
      else
        (None, (run cs init_registrar)
           \<lparr>file_codecs := file_codecs (run cs init_registrar) @ [(name, codec)],
            file_builders := file_builders (run cs init_registrar) @ [(name, builder)]\<rparr>))"
proof -
  have p: "paired (run cs init_registrar)"
    by (rule paired_run [OF paired_init])
  show ?thesis
    using p register_paired [OF p, of name codec builder]
    by (simp add: paired_def check_preconditions_def)
qed

text \<open>
  C5, as the claim states it, fails in one of the two orders: on a fresh registrar a
  missing message for \<open>git\<close> is registered first, and the provider registered second
  under the same name is accepted; the name then holds both.
\<close>

theorem provider_after_message_counterexample:
  "register_file_handler ''git'' (0::nat) (1::nat)
     (snd (add_file_handler_missing_message ''git'' ''GitPython is missing''
        (init_registrar :: (nat, nat, nat) registrar)))
   = (None, \<lparr>stager = 0, file_codecs = [(''git'', 0)], file_builders = [(''git'', 1)],
        file_handler_exceptions = [(''git'', ''GitPython is missing'')],
        post_processors = [], post_processor_exceptions = []\<rparr>)"
  by (simp add: register_file_handler_def add_file_handler_missing_message_def
        check_preconditions_def reg_setitem_def reg_contains_def init_registrar_def Let_def)

text \<open>
  C5, amended. In any registrar, a missing message for a name that holds a provider
  (a post-processor) raises and leaves the registrar as it was. The other order is not
  guarded: \<open>register_file_handler\<close> and \<open>register_post_processor\<close> never read the
  message registries, so what they do is the same whatever messages are registered.
\<close>

theorem missing_message_exclusion:
  "(reg_contains name (file_codecs s) \<longrightarrow>
      (\<exists>e. add_file_handler_missing_message name message s = (Some e, s))) \<and>
   (reg_contains name (post_processors s) \<longrightarrow>
      (\<exists>e. add_post_processor_missing_message name message s = (Some e, s))) \<and>
   register_file_handler name codec builder (s\<lparr>file_handler_exceptions := ms\<rparr>) =
     map_prod id (\<lambda>t. t\<lparr>file_handler_exceptions := ms\<rparr>)
       (register_file_handler name codec builder s) \<and>
   register_post_processor name pp (s\<lparr>post_processor_exceptions := ms\<rparr>) =
     map_prod id (\<lambda>t. t\<lparr>post_processor_exceptions := ms\<rparr>)
       (register_post_processor name pp s)"
  by (auto simp: add_file_handler_missing_message_def add_post_processor_missing_message_def
        register_file_handler_def register_post_processor_def check_preconditions_def
        reg_setitem_def Let_def split: option.splits)

theorem missing_message_exclusion_witness:
  "reg_contains ''git'' (file_codecs (run [RegisterFileHandler ''git'' (0::nat) (1::nat)]
       (init_registrar :: (nat, nat, nat) registrar))) \<and>
   (\<exists>e. add_file_handler_missing_message ''git'' ''GitPython is missing''
       (run [RegisterFileHandler ''git'' (0::nat) (1::nat)]
          (init_registrar :: (nat, nat, nat) registrar)) =
     (Some e, run [RegisterFileHandler ''git'' 0 1] init_registrar)) \<and>
   reg_contains ''unpack'' (post_processors (run [RegisterPostProcessor ''unpack'' (2::nat)]
       (init_registrar :: (nat, nat, nat) registrar))) \<and>
   (\<exists>e. add_post_processor_missing_message ''unpack'' ''missing''
       (run [RegisterPostProcessor ''unpack'' (2::nat)]
          (init_registrar :: (nat, nat, nat) registrar)) =
     (Some e, run [RegisterPostProcessor ''unpack'' 2] init_registrar))"
proof -
  have a: "reg_contains ''git'' (file_codecs (run [RegisterFileHandler ''git'' (0::nat) (1::nat)]
       (init_registrar :: (nat, nat, nat) registrar)))"
    by (simp add: register_file_handler_def check_preconditions_def reg_setitem_def
          reg_contains_def init_registrar_def Let_def)
  have b: "reg_contains ''unpack'' (post_processors (run [RegisterPostProcessor ''unpack'' (2::nat)]
       (init_registrar :: (nat, nat, nat) registrar)))"
    by (simp add: register_post_processor_def check_preconditions_def reg_setitem_def
          reg_contains_def init_registrar_def Let_def)
  show ?thesis
    using a b
      missing_message_exclusion [of "''git''"
        "run [RegisterFileHandler ''git'' (0::nat) (1::nat)] (init_registrar :: (nat, nat, nat) registrar)"
        "''GitPython is missing''"]
      missing_message_exclusion [of "''unpack''"
        "run [RegisterPostProcessor ''unpack'' (2::nat)] (init_registrar :: (nat, nat, nat) registrar)"
        "''missing''"]
    by blast
qed

section \<open>Properties of the git codec\<close>

lemma decode_type_find:
  "decode_type it d obj =
     (case obj ''repository'' of
        None \<Rightarrow> Inl (KeyError ''repository'')
      | Some repo \<Rightarrow>
         (case find (\<lambda>k. obj k \<noteq> None) it of
            None \<Rightarrow> GitProjectFile_init repo JNull ''branch'' d
          | Some k \<Rightarrow> GitProjectFile_init repo (the (obj k)) k d))"
  by (induction it) (auto split: option.splits)

lemma decode_type_found:
  assumes "find (\<lambda>k. obj k \<noteq> None) it = Some k" "obj k = Some b"
    "obj ''repository'' = Some repo" "k \<in> VALID_BRANCH_TYPES"
  shows "decode_type it d obj = Inr \<lparr>dir = d, repository = repo, branch = b, branch_type = k\<rparr>"
  using assms by (simp add: decode_type_find GitProjectFile_init_def)

lemma find_single:
  assumes "k \<in> set it" "obj k = Some b" "\<forall>k' \<in> set it. k' \<noteq> k \<longrightarrow> obj k' = None"
  shows "find (\<lambda>k. obj k \<noteq> None) it = Some k"
  using assms by (induction it) auto

lemma find_absent:
  assumes "\<forall>k \<in> set it. obj k = None"
  shows "find (\<lambda>k. obj k \<noteq> None) it = None"
  using assms by (induction it) auto

text \<open>
  C7, as the claim states it, fails: the loop visits the keys in the iteration order of
  a set. When that order is \<open>tag\<close>, \<open>commit\<close>, \<open>branch\<close>, a document with both a
  \<open>branch\<close> and a \<open>tag\<close> decodes to the tag, where the declared order gives the branch.
\<close>

theorem decode_priority_counterexample:
  "iteration_order [''tag'', ''commit'', ''branch''] \<and>
   decode_type [''tag'', ''commit'', ''branch''] ''.''
     [''repository'' \<mapsto> JString ''https://example.org/r.git'',
      ''branch'' \<mapsto> JString ''main'', ''tag'' \<mapsto> JString ''v1'']
   = Inr \<lparr>dir = ''.'', repository = JString ''https://example.org/r.git'',
          branch = JString ''v1'', branch_type = ''tag''\<rparr> \<and>
   decode_type_declared_order ''.''
     [''repository'' \<mapsto> JString ''https://example.org/r.git'',
      ''branch'' \<mapsto> JString ''main'', ''tag'' \<mapsto> JString ''v1'']
   = Inr \<lparr>dir = ''.'', repository = JString ''https://example.org/r.git'',
          branch = JString ''main'', branch_type = ''branch''\<rparr>"
  by (auto simp: iteration_order_def VALID_BRANCH_TYPES_def decode_type_declared_order_def
        GitProjectFile_init_def)

text \<open>
  C7, amended. Whatever the iteration order \<open>it\<close> of the set: the first key of \<open>it\<close>
  that the document has determines \<open>branch\<close> and \<open>branch_type\<close>; when the document has
  exactly one of the three keys, that key determines them, as in the declared order; when
  it has none, the base form is built from \<open>repository\<close> alone (branch \<open>None\<close>, branch
  type \<open>branch\<close>). A document without \<open>repository\<close> raises \<open>KeyError\<close>.
\<close>

theorem decode_type_first_match:
  assumes "iteration_order it"
  shows "(obj ''repository'' = None \<longrightarrow> decode_type it d obj = Inl (KeyError ''repository'')) \<and>
         (obj ''repository'' = Some repo \<and> find (\<lambda>k. obj k \<noteq> None) it = Some k \<and> obj k = Some b \<longrightarrow>
            decode_type it d obj =
              Inr \<lparr>dir = d, repository = repo, branch = b, branch_type = k\<rparr>) \<and>
         (obj ''repository'' = Some repo \<and> k \<in> VALID_BRANCH_TYPES \<and> obj k = Some b \<and>
          (\<forall>k' \<in> VALID_BRANCH_TYPES. k' \<noteq> k \<longrightarrow> obj k' = None) \<longrightarrow>
            decode_type it d obj =
              Inr \<lparr>dir = d, repository = repo, branch = b, branch_type = k\<rparr> \<and>
            decode_type_declared_order d obj = decode_type it d obj) \<and>
         (obj ''repository'' = Some repo \<and> (\<forall>k \<in> VALID_BRANCH_TYPES. obj k = None) \<longrightarrow>
            decode_type it d obj =
              Inr \<lparr>dir = d, repository = repo, branch = JNull, branch_type = ''branch''\<rparr>)"
proof -
  have s: "set it = VALID_BRANCH_TYPES"
    using assms by (simp add: iteration_order_def)
  have decl: "set [''branch'', ''commit'', ''tag''] = VALID_BRANCH_TYPES"
    by (auto simp: VALID_BRANCH_TYPES_def)
  have 1: "obj ''repository'' = None \<longrightarrow> decode_type it d obj = Inl (KeyError ''repository'')"
    by (simp add: decode_type_find)
  have 2: "obj ''repository'' = Some repo \<and> find (\<lambda>k. obj k \<noteq> None) it = Some k \<and> obj k = Some b \<longrightarrow>
            decode_type it d obj =
              Inr \<lparr>dir = d, repository = repo, branch = b, branch_type = k\<rparr>"
  proof (intro impI, elim conjE)
    assume r: "obj ''repository'' = Some repo" and f: "find (\<lambda>k. obj k \<noteq> None) it = Some k"
      and b: "obj k = Some b"
    from f have "k \<in> set it" by (auto simp: find_Some_iff)
    then have "k \<in> VALID_BRANCH_TYPES" using s by simp
    then show "decode_type it d obj = Inr \<lparr>dir = d, repository = repo, branch = b, branch_type = k\<rparr>"
      using r f b by (simp add: decode_type_find GitProjectFile_init_def)
  qed
  have 3: "obj ''repository'' = Some repo \<and> k \<in> VALID_BRANCH_TYPES \<and> obj k = Some b \<and>
          (\<forall>k' \<in> VALID_BRANCH_TYPES. k' \<noteq> k \<longrightarrow> obj k' = None) \<longrightarrow>
            decode_type it d obj =
              Inr \<lparr>dir = d, repository = repo, branch = b, branch_type = k\<rparr> \<and>
            decode_type_declared_order d obj = decode_type it d obj"
  proof (intro impI, elim conjE)
    assume r: "obj ''repository'' = Some repo" and k: "k \<in> VALID_BRANCH_TYPES"
      and b: "obj k = Some b" and o: "\<forall>k' \<in> VALID_BRANCH_TYPES. k' \<noteq> k \<longrightarrow> obj k' = None"
    have f1: "find (\<lambda>k. obj k \<noteq> None) it = Some k"
      using find_single [of k it obj b] k b o s by simp
    have f2: "find (\<lambda>k. obj k \<noteq> None) [''branch'', ''commit'', ''tag''] = Some k"
      using k b o by (intro find_single [where b = b]) (auto simp: VALID_BRANCH_TYPES_def)
    show "decode_type it d obj = Inr \<lparr>dir = d, repository = repo, branch = b, branch_type = k\<rparr> \<and>
          decode_type_declared_order d obj = decode_type it d obj"
      unfolding decode_type_declared_order_def
      by (simp only: decode_type_found [OF f1 b r k] decode_type_found [OF f2 b r k])
  qed
  have 4: "obj ''repository'' = Some repo \<and> (\<forall>k \<in> VALID_BRANCH_TYPES. obj k = None) \<longrightarrow>
            decode_type it d obj =
              Inr \<lparr>dir = d, repository = repo, branch = JNull, branch_type = ''branch''\<rparr>"
  proof (intro impI, elim conjE)
    assume r: "obj ''repository'' = Some repo" and a: "\<forall>k \<in> VALID_BRANCH_TYPES. obj k = None"
    have "find (\<lambda>k. obj k \<noteq> None) it = None"
      using find_absent [of it obj] a s by simp
    then show "decode_type it d obj =
              Inr \<lparr>dir = d, repository = repo, branch = JNull, branch_type = ''branch''\<rparr>"
      using r by (simp add: decode_type_find GitProjectFile_init_def VALID_BRANCH_TYPES_def)
  qed
  from 1 2 3 4 show ?thesis by blast
qed

theorem decode_type_first_match_witness:
  "iteration_order [''commit'', ''tag'', ''branch''] \<and>
   decode_type [''commit'', ''tag'', ''branch''] ''sub''
     [''repository'' \<mapsto> JString ''r'', ''branch'' \<mapsto> JString ''main'', ''tag'' \<mapsto> JString ''v1'']
   = Inr \<lparr>dir = ''sub'', repository = JString ''r'', branch = JString ''v1'', branch_type = ''tag''\<rparr> \<and>
   decode_type [''commit'', ''tag'', ''branch''] ''sub''
     [''repository'' \<mapsto> JString ''r'', ''commit'' \<mapsto> JString ''abc123'']
   = Inr \<lparr>dir = ''sub'', repository = JString ''r'', branch = JString ''abc123'',
          branch_type = ''commit''\<rparr> \<and>
   decode_type [''commit'', ''tag'', ''branch''] ''sub'' [''repository'' \<mapsto> JString ''r'']
   = Inr \<lparr>dir = ''sub'', repository = JString ''r'', branch = JNull, branch_type = ''branch''\<rparr> \<and>
   decode_type [''commit'', ''tag'', ''branch''] ''sub'' [''branch'' \<mapsto> JString ''main'']
   = Inl (KeyError ''repository'')"
proof -
  have io: "iteration_order [''commit'', ''tag'', ''branch'']"
    by (auto simp: iteration_order_def VALID_BRANCH_TYPES_def)
  show ?thesis
    using io
      decode_type_first_match [OF io, where d = "''sub''" and repo = "JString ''r''"
        and k = "''tag''" and b = "JString ''v1''" and obj =
        "[''repository'' \<mapsto> JString ''r'', ''branch'' \<mapsto> JString ''main'', ''tag'' \<mapsto> JString ''v1'']"]
      decode_type_first_match [OF io, where d = "''sub''" and repo = "JString ''r''"
        and k = "''commit''" and b = "JString ''abc123''" and obj =
        "[''repository'' \<mapsto> JString ''r'', ''commit'' \<mapsto> JString ''abc123'']"]
      decode_type_first_match [OF io, where d = "''sub''" and repo = "JString ''r''"
        and k = "''commit''" and b = "JNull" and obj = "[''repository'' \<mapsto> JString ''r'']"]
      decode_type_first_match [OF io, where d = "''sub''" and repo = "JString ''r''"
        and k = "''commit''" and b = "JNull" and obj = "[''branch'' \<mapsto> JString ''main'']"]
    by (simp add: VALID_BRANCH_TYPES_def)
qed

text \<open>
  C9. For a descriptor built by the constructor (its branch type is one of the valid
  keys), \<open>encode_type\<close> always writes \<open>repository\<close>, and writes the branch, under the
  key named by \<open>branch_type\<close>, exactly when the branch is not the default \<open>None\<close>:
  otherwise no other key of the document is touched. The key written is one that
  \<open>decode_type\<close> tests: decoding the encoding (into a document that had none of the
  three keys) gives back the branch and the branch type, whatever the iteration order.
\<close>

theorem encode_type_sparse:
  assumes "branch_type obj \<in> VALID_BRANCH_TYPES"
  shows "encode_type obj dict_obj ''repository'' = Some (repository obj) \<and>
         (branch obj = JNull \<longrightarrow>
            encode_type obj dict_obj = dict_obj(''repository'' \<mapsto> repository obj)) \<and>
         (branch obj \<noteq> JNull \<longrightarrow>
            encode_type obj dict_obj =
              dict_obj(''repository'' \<mapsto> repository obj, branch_type obj \<mapsto> branch obj) \<and>
            encode_type obj dict_obj (branch_type obj) = Some (branch obj)) \<and>
         (branch obj \<noteq> JNull \<and> iteration_order it \<and>
          (\<forall>k \<in> VALID_BRANCH_TYPES. dict_obj k = None) \<longrightarrow>
            decode_type it d (encode_type obj dict_obj) =
              Inr \<lparr>dir = d, repository = repository obj, branch = branch obj,
                   branch_type = branch_type obj\<rparr>)"
proof -
  have ne: "branch_type obj \<noteq> ''repository''"
    using assms by (auto simp: VALID_BRANCH_TYPES_def)
  have 1: "encode_type obj dict_obj ''repository'' = Some (repository obj)"
    using ne by (simp add: encode_type_def get_default_branch_def Let_def)
  have 2: "branch obj = JNull \<longrightarrow>
            encode_type obj dict_obj = dict_obj(''repository'' \<mapsto> repository obj)"
    by (simp add: encode_type_def get_default_branch_def)
  have 3: "branch obj \<noteq> JNull \<longrightarrow>
            encode_type obj dict_obj =
              dict_obj(''repository'' \<mapsto> repository obj, branch_type obj \<mapsto> branch obj) \<and>
            encode_type obj dict_obj (branch_type obj) = Some (branch obj)"
    by (simp add: encode_type_def get_default_branch_def)
  have 4: "branch obj \<noteq> JNull \<and> iteration_order it \<and>
          (\<forall>k \<in> VALID_BRANCH_TYPES. dict_obj k = None) \<longrightarrow>
            decode_type it d (encode_type obj dict_obj) =
              Inr \<lparr>dir = d, repository = repository obj, branch = branch obj,
                   branch_type = branch_type obj\<rparr>"
  proof (intro impI, elim conjE)
    assume b: "branch obj \<noteq> JNull" and io: "iteration_order it"
      and a: "\<forall>k \<in> VALID_BRANCH_TYPES. dict_obj k = None"
    let ?e = "encode_type obj dict_obj"
    have e: "?e = dict_obj(''repository'' \<mapsto> repository obj, branch_type obj \<mapsto> branch obj)"
      using b 3 by simp
    have s: "set it = VALID_BRANCH_TYPES"
      using io by (simp add: iteration_order_def)
    have "\<forall>k' \<in> set it. k' \<noteq> branch_type obj \<longrightarrow> ?e k' = None"
      using a s e by (auto simp: VALID_BRANCH_TYPES_def)
    then have f: "find (\<lambda>k. ?e k \<noteq> None) it = Some (branch_type obj)"
      using find_single [of "branch_type obj" it ?e "branch obj"] assms s e by simp
    show "decode_type it d ?e =
              Inr \<lparr>dir = d, repository = repository obj, branch = branch obj,
                   branch_type = branch_type obj\<rparr>"
      using f 1 assms e by (simp add: decode_type_find GitProjectFile_init_def)
  qed
  from 1 2 3 4 show ?thesis by blast
qed

theorem encode_type_sparse_witness:
  "branch_type \<lparr>dir = ''.'', repository = JString ''r'', branch = JString ''v1'',
      branch_type = ''tag''\<rparr> \<in> VALID_BRANCH_TYPES \<and>
   encode_type \<lparr>dir = ''.'', repository = JString ''r'', branch = JString ''v1'',
      branch_type = ''tag''\<rparr> Map.empty
   = [''repository'' \<mapsto> JString ''r'', ''tag'' \<mapsto> JString ''v1''] \<and>
   encode_type \<lparr>dir = ''.'', repository = JString ''r'', branch = JNull,
      branch_type = ''tag''\<rparr> Map.empty
   = [''repository'' \<mapsto> JString ''r''] \<and>
   decode_type [''commit'', ''tag'', ''branch''] ''.''
     (encode_type \<lparr>dir = ''.'', repository = JString ''r'', branch = JString ''v1'',
        branch_type = ''tag''\<rparr> Map.empty)
   = Inr \<lparr>dir = ''.'', repository = JString ''r'', branch = JString ''v1'',
          branch_type = ''tag''\<rparr>"
proof -
  have v: "branch_type \<lparr>dir = ''.'', repository = JString ''r'', branch = JString ''v1'',
      branch_type = ''tag''\<rparr> \<in> VALID_BRANCH_TYPES"
    by (simp add: VALID_BRANCH_TYPES_def)
  have v': "branch_type \<lparr>dir = ''.'', repository = JString ''r'', branch = JNull,
      branch_type = ''tag''\<rparr> \<in> VALID_BRANCH_TYPES"
    by (simp add: VALID_BRANCH_TYPES_def)
  have io: "iteration_order [''commit'', ''tag'', ''branch'']"
    by (auto simp: iteration_order_def VALID_BRANCH_TYPES_def)
  show ?thesis
    using v io
      encode_type_sparse [OF v, of Map.empty "[''commit'', ''tag'', ''branch'']" "''.''"]
      encode_type_sparse [OF v', of Map.empty "[''commit'', ''tag'', ''branch'']" "''.''"]
    by (simp add: VALID_BRANCH_TYPES_def GitProjectFile_init_def)
qed

section \<open>Properties of the file system operations\<close>

lemma view_Nil_Dir [simp]: "view (Dir es) [] = Some D"
  by (simp add: view_def)

lemma view_File [simp]: "view (File c) q = (if q = [] then Some (F c) else None)"
  by (cases q) (simp_all add: view_def)

lemma view_Dir_Cons:
  "view (Dir es) (x # q) = (case map_of es x of None \<Rightarrow> None | Some n \<Rightarrow> view n q)"
  by (simp add: view_def split: option.splits)

lemma view_below_not_dir:
  "view n [] \<noteq> Some D \<Longrightarrow> q \<noteq> [] \<Longrightarrow> view n q = None"
  by (cases n) auto

lemma put_view:
  "put fs cs (File c) = Some fs' \<Longrightarrow> view fs cs \<noteq> Some D \<Longrightarrow>
   view fs' q = ((view fs)(cs \<mapsto> F c)) q"
proof (induction fs cs "File c" arbitrary: fs' q rule: put.induct)
  case (1 n)
  then show ?case by (cases n) auto
next
  case (2 c0 x xs)
  then show ?case by simp
next
  case (3 es x)
  then have fs': "fs' = Dir (AList.update x (File c) es)" by simp
  show ?case
  proof (cases q)
    case Nil
    then show ?thesis using fs' by simp
  next
    case (Cons y r)
    show ?thesis
    proof (cases "y = x")
      case True
      have "r \<noteq> [] \<Longrightarrow> view (Dir es) (x # r) = None"
        using 3(2) by (cases "map_of es x") (auto simp: view_Dir_Cons intro: view_below_not_dir)
      then show ?thesis using fs' Cons True
        by (auto simp: view_Dir_Cons update_conv')
    next
      case False
      then show ?thesis using fs' Cons
        by (auto simp: view_Dir_Cons update_conv')
    qed
  qed
next
  case (4 es x y ys)
  from 4(2) obtain n n' where n: "map_of es x = Some n"
    and n': "put n (y # ys) (File c) = Some n'" and fs': "fs' = Dir (AList.update x n' es)"
    by (auto split: option.splits)
  have nd: "view n (y # ys) \<noteq> Some D"
    using 4(3) n by (simp add: view_Dir_Cons)
  note IH = 4(1) [OF n n' nd]
  show ?case
  proof (cases q)
    case Nil
    then show ?thesis using fs' by simp
  next
    case (Cons z r)
    then show ?thesis using fs' n IH [of r]
      by (auto simp: view_Dir_Cons update_conv')
  qed
qed

lemma mkdirs_view:
  "mkdirs fs cs = Some fs' \<Longrightarrow> view fs' q = (if prefix q cs then Some D else view fs q)"
proof (induction fs cs arbitrary: fs' q rule: mkdirs.induct)
  case (1 c xs)
  then show ?case by simp
next
  case (2 es)
  then show ?case by (cases q) auto
next
  case (3 es x xs)
  let ?n = "case map_of es x of None \<Rightarrow> Dir [] | Some n \<Rightarrow> n"
  from 3(2) obtain n' where n': "mkdirs ?n xs = Some n'" and fs': "fs' = Dir (AList.update x n' es)"
    by (auto split: option.splits)
  note IH = 3(1) [OF n']
  show ?case
  proof (cases q)
    case Nil
    then show ?thesis using fs' by simp
  next
    case (Cons z r)
    show ?thesis
    proof (cases "z = x")
      case True
      have "view ?n r = (if map_of es x = None then (if r = [] then Some D else None) else view (Dir es) (x # r))"
        by (cases r) (auto simp: view_Dir_Cons view_def split: option.splits)
      moreover have "map_of es x = None \<Longrightarrow> view (Dir es) (x # r) = None"
        by (simp add: view_Dir_Cons)
      ultimately show ?thesis using fs' Cons True IH [of r]
        by (auto simp: view_Dir_Cons update_conv')
    next
      case False
      then show ?thesis using fs' Cons
        by (auto simp: view_Dir_Cons update_conv')
    qed
  qed
qed

lemma remove_view:
  "cs \<noteq> [] \<Longrightarrow> view (remove fs cs) q = (if prefix cs q then None else view fs q)"
proof (induction fs cs arbitrary: q rule: remove.induct)
  case (1 n)
  then show ?case by simp
next
  case (2 c x xs)
  then show ?case by auto
next
  case (3 es x)
  then show ?case
    by (cases q) (auto simp: view_Dir_Cons delete_conv')
next
  case (4 es x y ys)
  show ?case
  proof (cases "map_of es x")
    case None
    then show ?thesis by (cases q) (auto simp: view_Dir_Cons)
  next
    case (Some n)
    then show ?thesis using 4(1) [OF Some]
      by (cases q) (auto simp: view_Dir_Cons update_conv')
  qed
qed

lemma view_F_iff: "view fs q = Some (F c) \<longleftrightarrow> lookup fs q = Some (File c)"
  by (auto simp: view_def split: option.splits node.splits)

lemma view_D_iff: "view fs q = Some D \<longleftrightarrow> (\<exists>es. lookup fs q = Some (Dir es))"
  by (auto simp: view_def split: option.splits node.splits)

lemma view_None_iff: "view fs q = None \<longleftrightarrow> lookup fs q = None"
  by (auto simp: view_def split: option.splits node.splits)

lemma write_file_view:
  assumes "write_file fs p c = Inr fs'"
  shows "\<exists>cs. resolve p = Some cs \<and> view fs cs \<noteq> Some D \<and>
    (\<forall>q. view fs' q = ((view fs)(cs \<mapsto> F c)) q)"
proof -
  from assms obtain cs where cs: "resolve p = Some cs"
    by (auto simp: write_file_def split: option.splits)
  from assms cs have nd: "view fs cs \<noteq> Some D"
    by (auto simp: write_file_def view_D_iff split: option.splits node.splits)
  from assms cs have "put fs cs (File c) = Some fs'"
    by (auto simp: write_file_def split: option.splits node.splits)
  from put_view [OF this nd] cs nd show ?thesis by blast
qed

lemma makedirs_view:
  assumes "makedirs fs p ok = Inr fs'"
  shows "\<exists>cs. resolve p = Some cs \<and>
    (\<forall>q. view fs' q = (if prefix q cs then Some D else view fs q))"
proof -
  from assms obtain cs where cs: "resolve p = Some cs"
    by (auto simp: makedirs_def split: option.splits)
  from assms cs have "mkdirs fs cs = Some fs'"
    by (auto simp: makedirs_def split: option.splits if_splits)
  from mkdirs_view [OF this] cs show ?thesis by blast
qed

lemma rmtree_view:
  assumes "rmtree fs p = Inr fs'"
  shows "\<exists>cs. resolve p = Some cs \<and> cs \<noteq> [] \<and> view fs cs = Some D \<and>
    (\<forall>q. view fs' q = (if prefix cs q then None else view fs q))"
proof -
  from assms obtain cs where cs: "resolve p = Some cs"
    by (auto simp: rmtree_def split: option.splits)
  from assms cs have ne: "cs \<noteq> []" and d: "view fs cs = Some D" and fs': "fs' = remove fs cs"
    by (auto simp: rmtree_def view_D_iff split: option.splits if_splits node.splits)
  from remove_view [OF ne, of fs] cs ne d fs' show ?thesis by blast
qed

lemma read_bytes_view:
  "read_bytes fs p = Inr c \<longleftrightarrow> (\<exists>cs. resolve p = Some cs \<and> view fs cs = Some (F c))"
  by (auto simp: read_bytes_def view_F_iff split: option.splits node.splits)

lemma decode_text_Inr: "decode_text c = Inr t \<longleftrightarrow> utf8_valid c \<and> t = universal_newlines c"
  by (auto simp: decode_text_def)

lemma read_text_view:
  "read_text fs p = Inr t \<longleftrightarrow>
     (\<exists>cs c. resolve p = Some cs \<and> view fs cs = Some (F c) \<and> utf8_valid c \<and>
        t = universal_newlines c)"
proof (cases "read_bytes fs p")
  case (Inl e)
  then have "\<not> (\<exists>cs c. resolve p = Some cs \<and> view fs cs = Some (F c))"
    using read_bytes_view [of fs p] by auto
  with Inl show ?thesis by (auto simp: read_text_def)
next
  case (Inr c)
  then obtain cs where "resolve p = Some cs" "view fs cs = Some (F c)"
    using read_bytes_view [of fs p c] by auto
  with Inr show ?thesis by (auto simp: read_text_def decode_text_Inr)
qed

lemma path_exists_view:
  "path_exists fs p \<longleftrightarrow> (\<exists>cs. resolve p = Some cs \<and> view fs cs \<noteq> None)"
  by (auto simp: path_exists_def view_None_iff split: option.splits)

lemma isdir_view:
  "isdir fs p \<longleftrightarrow> (\<exists>cs. resolve p = Some cs \<and> view fs cs = Some D)"
  by (auto simp: isdir_def view_D_iff split: option.splits node.splits)

lemma apply_patch_file_view:
  assumes "apply_patch_file ap wd pd sf fs = Inr fs'"
  shows "\<exists>cs c pt out. resolve (target wd pd sf) = Some cs \<and> view fs cs = Some (F c) \<and>
    utf8_valid c \<and> read_text fs (join (fst sf) (snd sf)) = Inr pt \<and>
    ap (universal_newlines c) pt = Inr out \<and>
    (\<forall>q. view fs' q = ((view fs)(cs \<mapsto> F out)) q)"
proof -
  from assms obtain pb wb pt wt out where pb: "read_bytes fs (join (fst sf) (snd sf)) = Inr pb"
    and wb: "read_bytes fs (target wd pd sf) = Inr wb"
    and wt: "decode_text wb = Inr wt"
    and pt: "decode_text pb = Inr pt"
    and out: "ap wt pt = Inr out"
    and w: "write_file fs (target wd pd sf) out = Inr fs'"
    by (auto simp: apply_patch_file_def target_def Let_def split: sum.splits)
  from wb obtain cs where cs: "resolve (target wd pd sf) = Some cs"
    and c: "view fs cs = Some (F wb)"
    by (auto simp: read_bytes_view)
  from wt have u: "utf8_valid wb" and wtc: "wt = universal_newlines wb"
    by (simp_all add: decode_text_Inr)
  from pb pt have rp: "read_text fs (join (fst sf) (snd sf)) = Inr pt"
    by (simp add: read_text_def)
  from write_file_view [OF w] cs have "\<forall>q. view fs' q = ((view fs)(cs \<mapsto> F out)) q"
    by auto
  with cs c u rp out wtc show ?thesis by blast
qed

lemma is_file_view: "is_file fs q \<longleftrightarrow> (\<exists>c. view fs q = Some (F c))"
  by (simp add: is_file_def view_F_iff)

lemma apply_patch_file_is_file:
  assumes "apply_patch_file ap wd pd sf fs = Inr fs'"
  shows "is_file fs' q = is_file fs q"
proof -
  from apply_patch_file_view [OF assms] obtain cs c out
    where c: "view fs cs = Some (F c)" and v: "\<And>q. view fs' q = ((view fs)(cs \<mapsto> F out)) q"
    by blast
  show ?thesis using c v [of q] by (cases "q = cs") (simp_all add: is_file_view)
qed

lemma apply_patch_file_target:
  assumes "apply_patch_file ap wd pd sf fs = Inr fs'"
  shows "\<exists>cs. resolve (target wd pd sf) = Some cs \<and> is_file fs cs"
  using apply_patch_file_view [OF assms] by (auto simp: is_file_view)

lemma for_each_apply_is_file:
  assumes "for_each (apply_patch_file ap wd pd) xs fs = Inr fs'"
  shows "(\<forall>q. is_file fs' q = is_file fs q) \<and>
         (\<forall>sf \<in> set xs. \<exists>cs. resolve (target wd pd sf) = Some cs \<and> is_file fs cs)"
  using assms
proof (induction xs arbitrary: fs)
  case Nil
  then show ?case by simp
next
  case (Cons x xs)
  from Cons.prems obtain fs1 where s1: "apply_patch_file ap wd pd x fs = Inr fs1"
    and r: "for_each (apply_patch_file ap wd pd) xs fs1 = Inr fs'"
    by (auto split: sum.splits)
  from Cons.IH [OF r] apply_patch_file_is_file [OF s1] apply_patch_file_target [OF s1]
  show ?case by auto
qed

section \<open>Properties of the engine\<close>

lemma for_each_append:
  "for_each body (xs @ ys) s =
     (case for_each body xs s of Inl e \<Rightarrow> Inl e | Inr s1 \<Rightarrow> for_each body ys s1)"
  by (induction xs arbitrary: s) (auto split: sum.splits)

lemma patches_frame:
  "for_each (apply_patch_file ap wd pd) xs s = Inr s' \<Longrightarrow>
   \<forall>e \<in> set xs. resolve (target wd pd e) \<noteq> Some q \<Longrightarrow> view s' q = view s q"
proof (induction xs arbitrary: s)
  case Nil
  then show ?case by simp
next
  case (Cons x xs)
  from Cons.prems(1) obtain s1 where st: "apply_patch_file ap wd pd x s = Inr s1"
    and r: "for_each (apply_patch_file ap wd pd) xs s1 = Inr s'"
    by (auto split: sum.splits)
  from apply_patch_file_view [OF st] obtain cs out
    where cs: "resolve (target wd pd x) = Some cs"
      and v: "\<And>q. view s1 q = ((view s)(cs \<mapsto> F out)) q"
    by blast
  have "cs \<noteq> q" using Cons.prems(2) cs by auto
  then have "view s1 q = view s q" using v [of q] by simp
  moreover have "view s' q = view s1 q" using Cons.IH [OF r] Cons.prems(2) by simp
  ultimately show ?case by simp
qed

lemma patch_single:
  assumes run: "for_each (apply_patch_file ap wd pd) (pre @ e # post) s = Inr s'"
    and others: "\<forall>e' \<in> set pre \<union> set post. resolve (target wd pd e') \<noteq> resolve (target wd pd e)"
    and pe: "resolve (join (fst e) (snd e)) = Some pe"
    and npe: "\<forall>e' \<in> set pre. resolve (target wd pd e') \<noteq> Some pe"
  shows "\<exists>t w p out. resolve (target wd pd e) = Some t \<and> view s t = Some (F w) \<and>
     utf8_valid w \<and>
     read_text s (join (fst e) (snd e)) = Inr p \<and> ap (universal_newlines w) p = Inr out \<and>
     view s' t = Some (F out)"
proof -
  from run obtain s1 s2 where a: "for_each (apply_patch_file ap wd pd) pre s = Inr s1"
    and b: "apply_patch_file ap wd pd e s1 = Inr s2"
    and c: "for_each (apply_patch_file ap wd pd) post s2 = Inr s'"
    by (auto simp: for_each_append split: sum.splits)
  from apply_patch_file_view [OF b] obtain t w p out
    where t: "resolve (target wd pd e) = Some t" and w: "view s1 t = Some (F w)"
      and u: "utf8_valid w"
      and p: "read_text s1 (join (fst e) (snd e)) = Inr p"
      and o: "ap (universal_newlines w) p = Inr out"
      and v: "\<And>q. view s2 q = ((view s1)(t \<mapsto> F out)) q"
    by blast
  have f1: "view s1 t = view s t"
    using others t by (intro patches_frame [OF a]) auto
  have f2: "view s1 pe = view s pe"
    using npe by (intro patches_frame [OF a]) auto
  have f3: "view s' t = view s2 t"
    using others t by (intro patches_frame [OF c]) auto
  have "read_text s (join (fst e) (snd e)) = Inr p"
    using p pe f2 by (simp add: read_text_view)
  moreover have "view s' t = Some (F out)" using f3 v [of t] by simp
  ultimately show ?thesis using t w u f1 o by auto
qed

lemma read_text_cong:
  assumes "\<And>cs. resolve p = Some cs \<Longrightarrow> view s1 cs = view s cs"
  shows "read_text s1 p = read_text s p"
proof (cases "resolve p")
  case None
  then show ?thesis by (simp add: read_text_def read_bytes_def)
next
  case (Some cs)
  from assms [OF Some] show ?thesis
    by (auto simp: read_text_def read_bytes_def Some view_def split: option.splits node.splits)
qed

lemma patches_fold:
  assumes "for_each (apply_patch_file ap wd pd) xs s = Inr s'"
    and "\<forall>e \<in> set xs. \<forall>e' \<in> set xs.
           resolve (target wd pd e) \<noteq> resolve (join (fst e') (snd e'))"
    and "view s t = Some (F c)"
  shows "\<exists>ps out.
     map (\<lambda>e. read_text s (join (fst e) (snd e))) [e \<leftarrow> xs. resolve (target wd pd e) = Some t]
       = map Inr ps \<and>
     patched ap c ps = Inr out \<and> view s' t = Some (F out)"
  using assms
proof (induction xs arbitrary: s c)
  case Nil
  then show ?case by simp
next
  case (Cons x xs)
  let ?rd = "\<lambda>s e. read_text s (join (fst e) (snd e))"
  let ?hit = "\<lambda>e. resolve (target wd pd e) = Some t"
  from Cons.prems(1) obtain s1 where st: "apply_patch_file ap wd pd x s = Inr s1"
    and r: "for_each (apply_patch_file ap wd pd) xs s1 = Inr s'"
    by (auto split: sum.splits)
  from apply_patch_file_view [OF st] obtain cs c1 pt out1
    where cs: "resolve (target wd pd x) = Some cs" and c1: "view s cs = Some (F c1)"
      and u: "utf8_valid c1" and pt: "?rd s x = Inr pt"
      and o: "ap (universal_newlines c1) pt = Inr out1"
      and v: "\<And>q. view s1 q = ((view s)(cs \<mapsto> F out1)) q"
    by blast
  have nopf: "\<forall>e \<in> set xs. \<forall>e' \<in> set xs.
      resolve (target wd pd e) \<noteq> resolve (join (fst e') (snd e'))"
    using Cons.prems(2) by simp
  have same: "?rd s1 e = ?rd s e" if "e \<in> set xs" for e
  proof (rule read_text_cong)
    fix q assume q: "resolve (join (fst e) (snd e)) = Some q"
    have "resolve (target wd pd x) \<noteq> resolve (join (fst e) (snd e))"
      using Cons.prems(2) that by simp
    then have "q \<noteq> cs" using q cs by auto
    then show "view s1 q = view s q" using v [of q] by simp
  qed
  then have maps: "map (?rd s1) (filter ?hit xs) = map (?rd s) (filter ?hit xs)"
    by simp
  show ?case
  proof (cases "cs = t")
    case True
    then have c: "c1 = c" using c1 Cons.prems(3) by simp
    have v1: "view s1 t = Some (F out1)" using v [of t] True by simp
    from Cons.IH [OF r nopf v1] obtain ps out
      where a: "map (?rd s1) (filter ?hit xs) = map Inr ps"
        and b: "patched ap out1 ps = Inr out" and d: "view s' t = Some (F out)"
      by blast
    have "map (?rd s) (filter ?hit (x # xs)) = map Inr (pt # ps)"
      using cs True pt a maps by simp
    moreover have "patched ap c (pt # ps) = Inr out"
      using u o b c by (simp add: decode_text_def)
    ultimately show ?thesis using d by blast
  next
    case False
    then have v1: "view s1 t = Some (F c)" using v [of t] Cons.prems(3) by simp
    from Cons.IH [OF r nopf v1] obtain ps out
      where a: "map (?rd s1) (filter ?hit xs) = map Inr ps"
        and b: "patched ap c ps = Inr out" and d: "view s' t = Some (F out)"
      by blast
    have "map (?rd s) (filter ?hit (x # xs)) = map Inr ps"
      using cs False a maps by simp
    then show ?thesis using b d by blast
  qed
qed

text \<open>
  C10. \<open>apply_patches\<close> runs its body on every file that the walk of the patch
  directory finds, whatever its name: no suffix is tested. Let \<open>work_path\<close> be the
  working directory joined with the path of such a file without its first
  \<open>len(patch_dir) + 1\<close> and its last six characters. When \<open>apply_patches\<close> returns,
  \<^item> \<open>work_path\<close> is a regular file before and after;
  \<^item> if no other file of the walk has this work file, and no earlier file of the walk
    has the patch file itself as its work file, then the work file holds at the end
    what \<open>apply_patch\<close> returns for the text it held before and the text of the file
    found under the patch directory;
  \<^item> if no file of the walk is itself the work file of one, then the work file holds
    at the end what it held before, patched with the texts of all the files of the walk
    that have this work file, in the order of the walk;
  \<^item> a path that is the work file of no file of the walk is as it was;
  \<^item> and the body, run on that entry in any state, reads the work file, applies the
    content of the entry to it as a patch, and leaves the result in the work file.
  The witness has \<open>notes.txt\<close> and \<open>not.patch\<close> applied to the work file \<open>not\<close>.
\<close>

theorem apply_patches_every_file:
  assumes run: "apply_patches ap working_dir patch_dir fs = Inr fs'"
    and walk: "walk_files fs patch_dir = pre @ (subdir, file) # post"
    and wp: "work_path = join working_dir
               (drop (length patch_dir + 1)
                  (take (length (join subdir file) - 6) (join subdir file)))"
  shows "(\<exists>cs c c'. resolve work_path = Some cs \<and>
            lookup fs cs = Some (File c) \<and> lookup fs' cs = Some (File c')) \<and>
         ((\<forall>e \<in> set pre \<union> set post.
             resolve (target working_dir patch_dir e) \<noteq> resolve work_path) \<and>
          (\<forall>e \<in> set pre.
             resolve (target working_dir patch_dir e) \<noteq> resolve (join subdir file)) \<longrightarrow>
          (\<exists>w p out. read_text fs work_path = Inr w \<and>
             read_text fs (join subdir file) = Inr p \<and> ap w p = Inr out \<and>
             read_bytes fs' work_path = Inr out)) \<and>
         ((\<forall>e \<in> set (walk_files fs patch_dir). \<forall>e' \<in> set (walk_files fs patch_dir).
             resolve (target working_dir patch_dir e) \<noteq> resolve (join (fst e') (snd e'))) \<longrightarrow>
          (\<exists>c ps out. read_bytes fs work_path = Inr c \<and>
             map (\<lambda>e. read_text fs (join (fst e) (snd e)))
               [e \<leftarrow> walk_files fs patch_dir.
                  resolve (target working_dir patch_dir e) = resolve work_path]
               = map Inr ps \<and>
             patched ap c ps = Inr out \<and> read_bytes fs' work_path = Inr out)) \<and>
         (\<forall>q. (\<forall>e \<in> set (walk_files fs patch_dir).
                  resolve (target working_dir patch_dir e) \<noteq> Some q) \<longrightarrow>
               view fs' q = view fs q) \<and>
         (\<forall>s s1. apply_patch_file ap working_dir patch_dir (subdir, file) s = Inr s1 \<longrightarrow>
            (\<exists>w p out. read_text s work_path = Inr w \<and>
               read_text s (join subdir file) = Inr p \<and> ap w p = Inr out \<and>
               read_bytes s1 work_path = Inr out))"
proof -
  let ?e = "(subdir, file)"
  have six: "length PATCH_EXTENSION + 1 = 6"
    by (simp add: PATCH_EXTENSION_def)
  have t: "target working_dir patch_dir ?e = work_path"
    unfolding wp by (simp only: target_def patch_rel_path_def six fst_conv snd_conv)
  from run have fe: "for_each (apply_patch_file ap working_dir patch_dir)
      (walk_files fs patch_dir) fs = Inr fs'"
    by (simp add: apply_patches_def)
  have mem: "?e \<in> set (walk_files fs patch_dir)"
    using walk by simp
  from for_each_apply_is_file [OF fe] mem t
  obtain cs where cs: "resolve work_path = Some cs" and f: "is_file fs cs" and f': "is_file fs' cs"
    by fastforce
  then have 1: "\<exists>cs c c'. resolve work_path = Some cs \<and> lookup fs cs = Some (File c) \<and>
      lookup fs' cs = Some (File c')"
    by (auto simp: is_file_def)
  have 2: "\<exists>w p out. read_text fs work_path = Inr w \<and>
      read_text fs (join subdir file) = Inr p \<and> ap w p = Inr out \<and>
      read_bytes fs' work_path = Inr out"
    if oth: "\<forall>e \<in> set pre \<union> set post.
        resolve (target working_dir patch_dir e) \<noteq> resolve work_path"
      and npf: "\<forall>e \<in> set pre.
        resolve (target working_dir patch_dir e) \<noteq> resolve (join subdir file)"
  proof -
    from fe obtain s1 s2
      where "for_each (apply_patch_file ap working_dir patch_dir) pre fs = Inr s1"
        and b: "apply_patch_file ap working_dir patch_dir ?e s1 = Inr s2"
      unfolding walk by (auto simp: for_each_append split: sum.splits)
    from apply_patch_file_view [OF b] obtain pe
      where pe: "resolve (join (fst ?e) (snd ?e)) = Some pe"
      by (auto simp: read_text_view)
    have oth': "\<forall>e' \<in> set pre \<union> set post.
        resolve (target working_dir patch_dir e') \<noteq> resolve (target working_dir patch_dir ?e)"
      using oth unfolding t .
    have npe: "\<forall>e' \<in> set pre. resolve (target working_dir patch_dir e') \<noteq> Some pe"
      using npf pe by simp
    from patch_single [OF fe [unfolded walk] oth' pe npe]
    obtain tc w p out where tc: "resolve (target working_dir patch_dir ?e) = Some tc"
      and w: "view fs tc = Some (F w)" and u: "utf8_valid w"
      and p: "read_text fs (join (fst ?e) (snd ?e)) = Inr p"
      and o: "ap (universal_newlines w) p = Inr out"
      and r: "view fs' tc = Some (F out)"
      by blast
    have "read_text fs work_path = Inr (universal_newlines w)"
      using tc w u unfolding t by (auto simp: read_text_view)
    moreover have "read_bytes fs' work_path = Inr out"
      using tc r unfolding t by (auto simp: read_bytes_view)
    ultimately show ?thesis using p o by auto
  qed
  have 3: "\<exists>c ps out. read_bytes fs work_path = Inr c \<and>
      map (\<lambda>e. read_text fs (join (fst e) (snd e)))
        [e \<leftarrow> walk_files fs patch_dir.
           resolve (target working_dir patch_dir e) = resolve work_path]
        = map Inr ps \<and>
      patched ap c ps = Inr out \<and> read_bytes fs' work_path = Inr out"
    if nopf: "\<forall>e \<in> set (walk_files fs patch_dir). \<forall>e' \<in> set (walk_files fs patch_dir).
        resolve (target working_dir patch_dir e) \<noteq> resolve (join (fst e') (snd e'))"
  proof -
    from f obtain c where c: "view fs cs = Some (F c)"
      by (auto simp: is_file_view)
    from patches_fold [OF fe nopf c] obtain ps out
      where a: "map (\<lambda>e. read_text fs (join (fst e) (snd e)))
          [e \<leftarrow> walk_files fs patch_dir. resolve (target working_dir patch_dir e) = Some cs]
          = map Inr ps"
        and b: "patched ap c ps = Inr out" and d: "view fs' cs = Some (F out)"
      by blast
    have "read_bytes fs work_path = Inr c"
      using cs c by (auto simp: read_bytes_view)
    moreover have "read_bytes fs' work_path = Inr out"
      using cs d by (auto simp: read_bytes_view)
    ultimately show ?thesis using a b unfolding cs by blast
  qed
  have 4: "view fs' q = view fs q"
    if "\<forall>e \<in> set (walk_files fs patch_dir).
          resolve (target working_dir patch_dir e) \<noteq> Some q" for q
    using fe that by (rule patches_frame)
  have 5: "\<exists>w p out. read_text s work_path = Inr w \<and> read_text s (join subdir file) = Inr p \<and>
      ap w p = Inr out \<and> read_bytes s1 work_path = Inr out"
    if h: "apply_patch_file ap working_dir patch_dir ?e s = Inr s1" for s s1
  proof -
    from apply_patch_file_view [OF h]
    obtain cs c pt out where a: "resolve (target working_dir patch_dir ?e) = Some cs"
      "view s cs = Some (F c)" "utf8_valid c"
      "read_text s (join (fst ?e) (snd ?e)) = Inr pt"
      "ap (universal_newlines c) pt = Inr out"
      and v: "\<And>q. view s1 q = ((view s)(cs \<mapsto> F out)) q"
      by blast
    from v [of cs] have r: "view s1 cs = Some (F out)" by simp
    have "read_text s work_path = Inr (universal_newlines c)"
      using a(1,2,3) unfolding t by (auto simp: read_text_view)
    moreover have "read_bytes s1 work_path = Inr out"
      using a(1) r unfolding t by (auto simp: read_bytes_view)
    ultimately show ?thesis using a(4,5) by auto
  qed
  from 1 2 3 4 5 show ?thesis by blast
qed

theorem apply_patches_every_file_witness:
  "apply_patches (\<lambda>w p. Inr (w @ p)) ''_src'' ''_patches''
     (Dir [(''_src'', Dir [(''not'', File ''abc''), (''a.txt'', File ''hello'')]),
           (''_patches'', Dir [(''notes.txt'', File ''xyz''), (''not.patch'', File ''Q''),
                               (''a.txt.patch'', File ''P'')])])
   = Inr (Dir [(''_src'', Dir [(''not'', File ''abcxyzQ''), (''a.txt'', File ''helloP'')]),
               (''_patches'', Dir [(''notes.txt'', File ''xyz''), (''not.patch'', File ''Q''),
                                   (''a.txt.patch'', File ''P'')])]) \<and>
   walk_files
     (Dir [(''_src'', Dir [(''not'', File ''abc''), (''a.txt'', File ''hello'')]),
           (''_patches'', Dir [(''notes.txt'', File ''xyz''), (''not.patch'', File ''Q''),
                               (''a.txt.patch'', File ''P'')])])
     ''_patches''
   = [(''_patches'', ''notes.txt'')] @ (''_patches'', ''not.patch'') # [(''_patches'', ''a.txt.patch'')] \<and>
   ''_src/not'' = join ''_src'' (drop (length ''_patches'' + 1)
      (take (length (join ''_patches'' ''notes.txt'') - 6) (join ''_patches'' ''notes.txt''))) \<and>
   ''_src/a.txt'' = join ''_src'' (drop (length ''_patches'' + 1)
      (take (length (join ''_patches'' ''a.txt.patch'') - 6) (join ''_patches'' ''a.txt.patch''))) \<and>
   (\<exists>w p out.
      read_text
        (Dir [(''_src'', Dir [(''not'', File ''abc''), (''a.txt'', File ''hello'')]),
              (''_patches'', Dir [(''notes.txt'', File ''xyz''), (''not.patch'', File ''Q''),
                                  (''a.txt.patch'', File ''P'')])])
        ''_src/a.txt'' = Inr w \<and>
      read_text
        (Dir [(''_src'', Dir [(''not'', File ''abc''), (''a.txt'', File ''hello'')]),
              (''_patches'', Dir [(''notes.txt'', File ''xyz''), (''not.patch'', File ''Q''),
                                  (''a.txt.patch'', File ''P'')])])
        (join ''_patches'' ''a.txt.patch'') = Inr p \<and>
      (Inr (w @ p) :: os_error + string) = Inr out \<and>
      read_bytes
        (Dir [(''_src'', Dir [(''not'', File ''abcxyzQ''), (''a.txt'', File ''helloP'')]),
              (''_patches'', Dir [(''notes.txt'', File ''xyz''), (''not.patch'', File ''Q''),
                                  (''a.txt.patch'', File ''P'')])])
        ''_src/a.txt'' = Inr out) \<and>
   (\<exists>c ps out.
      read_bytes
        (Dir [(''_src'', Dir [(''not'', File ''abc''), (''a.txt'', File ''hello'')]),
              (''_patches'', Dir [(''notes.txt'', File ''xyz''), (''not.patch'', File ''Q''),
                                  (''a.txt.patch'', File ''P'')])])
        ''_src/not'' = Inr c \<and>
      [Inr ''xyz'', Inr ''Q''] = (map Inr ps :: (os_error + string) list) \<and>
      patched (\<lambda>w p. Inr (w @ p)) c ps = Inr out \<and>
      read_bytes
        (Dir [(''_src'', Dir [(''not'', File ''abcxyzQ''), (''a.txt'', File ''helloP'')]),
              (''_patches'', Dir [(''notes.txt'', File ''xyz''), (''not.patch'', File ''Q''),
                                  (''a.txt.patch'', File ''P'')])])
        ''_src/not'' = Inr out) \<and>
   read_bytes
     (Dir [(''_src'', Dir [(''not'', File ''abcxyzQ''), (''a.txt'', File ''helloP'')]),
           (''_patches'', Dir [(''notes.txt'', File ''xyz''), (''not.patch'', File ''Q''),
                               (''a.txt.patch'', File ''P'')])])
     ''_src/not'' = Inr ''abcxyzQ''"
proof -
  let ?pa = "Dir [(''notes.txt'', File ''xyz''), (''not.patch'', File ''Q''),
                  (''a.txt.patch'', File ''P'')]"
  let ?fs = "Dir [(''_src'', Dir [(''not'', File ''abc''), (''a.txt'', File ''hello'')]),
                  (''_patches'', ?pa)]"
  let ?fs' = "Dir [(''_src'', Dir [(''not'', File ''abcxyzQ''), (''a.txt'', File ''helloP'')]),
                   (''_patches'', ?pa)]"
  let ?ap = "\<lambda>w p. Inr (w @ p) :: os_error + string"
  let ?xs = "[(''_patches'', ''notes.txt''), (''_patches'', ''not.patch''),
              (''_patches'', ''a.txt.patch'')]"
  have a: "apply_patches ?ap ''_src'' ''_patches'' ?fs = Inr ?fs'"
    by code_simp
  have b1: "walk_files ?fs ''_patches''
      = [] @ (''_patches'', ''notes.txt'') # [(''_patches'', ''not.patch''), (''_patches'', ''a.txt.patch'')]"
    by code_simp
  have b2: "walk_files ?fs ''_patches''
      = [(''_patches'', ''notes.txt''), (''_patches'', ''not.patch'')] @ (''_patches'', ''a.txt.patch'') # []"
    by code_simp
  have b: "walk_files ?fs ''_patches''
      = [(''_patches'', ''notes.txt'')] @ (''_patches'', ''not.patch'') # [(''_patches'', ''a.txt.patch'')]"
    by code_simp
  have w: "walk_files ?fs ''_patches'' = ?xs"
    by code_simp
  have c1: "''_src/not'' = join ''_src'' (drop (length ''_patches'' + 1)
      (take (length (join ''_patches'' ''notes.txt'') - 6) (join ''_patches'' ''notes.txt'')))"
    by code_simp
  have c2: "''_src/a.txt'' = join ''_src'' (drop (length ''_patches'' + 1)
      (take (length (join ''_patches'' ''a.txt.patch'') - 6) (join ''_patches'' ''a.txt.patch'')))"
    by code_simp
  \<comment> \<open>the entry \<open>a.txt.patch\<close>: the only one with the work file \<open>a.txt\<close>\<close>
  have d: "\<forall>e \<in> set [(''_patches'', ''notes.txt''), (''_patches'', ''not.patch'')] \<union> set [].
      resolve (target ''_src'' ''_patches'' e) \<noteq> resolve ''_src/a.txt''"
    by code_simp
  have e: "\<forall>e \<in> set [(''_patches'', ''notes.txt''), (''_patches'', ''not.patch'')].
      resolve (target ''_src'' ''_patches'' e) \<noteq> resolve (join ''_patches'' ''a.txt.patch'')"
    by code_simp
  from apply_patches_every_file [where ap = ?ap, OF a b2 c2] d e
  have single: "\<exists>w p out. read_text ?fs ''_src/a.txt'' = Inr w \<and>
      read_text ?fs (join ''_patches'' ''a.txt.patch'') = Inr p \<and>
      (Inr (w @ p) :: os_error + string) = Inr out \<and>
      read_bytes ?fs' ''_src/a.txt'' = Inr out"
    by blast
  \<comment> \<open>the entry \<open>notes.txt\<close>: one of the two with the work file \<open>not\<close>\<close>
  have n: "\<forall>e \<in> set ?xs. \<forall>e' \<in> set ?xs.
      resolve (target ''_src'' ''_patches'' e) \<noteq> resolve (join (fst e') (snd e'))"
    by code_simp
  have m: "map (\<lambda>e. read_text ?fs (join (fst e) (snd e)))
      [e \<leftarrow> ?xs. resolve (target ''_src'' ''_patches'' e) = resolve ''_src/not'']
      = [Inr ''xyz'', Inr ''Q'']"
    by code_simp
  note inst = apply_patches_every_file [where ap = ?ap, OF a b1 c1, unfolded w]
  have "\<exists>c ps out. read_bytes ?fs ''_src/not'' = Inr c \<and>
      map (\<lambda>e. read_text ?fs (join (fst e) (snd e)))
        [e \<leftarrow> ?xs. resolve (target ''_src'' ''_patches'' e) = resolve ''_src/not'']
        = map Inr ps \<and>
      patched ?ap c ps = Inr out \<and> read_bytes ?fs' ''_src/not'' = Inr out"
    by (rule inst [THEN conjunct2, THEN conjunct2, THEN conjunct1, THEN mp, OF n])
  then have fold: "\<exists>c ps out. read_bytes ?fs ''_src/not'' = Inr c \<and>
      [Inr ''xyz'', Inr ''Q''] = (map Inr ps :: (os_error + string) list) \<and>
      patched ?ap c ps = Inr out \<and> read_bytes ?fs' ''_src/not'' = Inr out"
    unfolding m .
  have r: "read_bytes ?fs' ''_src/not'' = Inr ''abcxyzQ''"
    by code_simp
  from a b c1 c2 single fold r show ?thesis by blast
qed

lemma path_of_Nil [simp]: "path_of tp [] = tp"
  by (simp add: path_of_def)

lemma path_of_Cons: "path_of tp (n # R) = path_of (tp @ CHR ''/'' # n) R"
  by (simp add: path_of_def)

lemma path_of_snoc: "path_of tp (R @ [n]) = path_of tp R @ CHR ''/'' # n"
  by (simp add: path_of_def)

lemma rel_of_Cons: "rel_of (n # R) = path_of n R"
  by (simp add: rel_of_def path_of_def)

lemma split_on_no_sep: "c \<notin> set w \<Longrightarrow> split_on c w = [w]"
  by (induction w) auto

lemma split_on_append: "c \<notin> set w \<Longrightarrow> split_on c (w @ c # rest) = w # split_on c rest"
  by (induction w) auto

lemma path_of_Cons': "path_of tp (n # R) = tp @ CHR ''/'' # path_of n R"
  by (simp add: path_of_def)

lemma split_on_path_of:
  "CHR ''/'' \<notin> set w \<Longrightarrow> \<forall>n \<in> set R. CHR ''/'' \<notin> set n \<Longrightarrow>
   split_on CHR ''/'' (path_of w R) = w # R"
proof (induction R arbitrary: w)
  case Nil
  then show ?case by (simp add: split_on_no_sep)
next
  case (Cons n R)
  then show ?case by (simp add: path_of_Cons' split_on_append)
qed

lemma valid_filter:
  "list_all valid_name R \<Longrightarrow> filter (\<lambda>c. c \<noteq> [] \<and> c \<noteq> ''.'') R = R"
  by (induction R) (auto simp: valid_name_def)

lemma valid_no_dotdot: "list_all valid_name R \<Longrightarrow> ''..'' \<notin> set R"
  by (induction R) (auto simp: valid_name_def)

lemma path_of_nonempty: "tp \<noteq> [] \<Longrightarrow> path_of tp R \<noteq> []"
  by (simp add: path_of_def)

lemma resolve_path_of:
  assumes "valid_name w" "list_all valid_name R"
  shows "resolve (path_of w R) = Some (w # R)"
proof -
  have "split_on CHR ''/'' (path_of w R) = w # R"
    using assms by (intro split_on_path_of) (auto simp: valid_name_def list_all_iff)
  moreover have "list_all valid_name (w # R)" using assms by simp
  moreover have "path_of w R \<noteq> []" using assms by (simp add: path_of_def valid_name_def)
  ultimately show ?thesis
    using valid_filter [of "w # R"] valid_no_dotdot [of "w # R"]
    by (simp add: resolve_def Let_def)
qed

lemma join_open_end:
  "open_end a \<Longrightarrow> b = [] \<or> hd b \<noteq> CHR ''/'' \<Longrightarrow> join a b = a @ CHR ''/'' # b"
  by (auto simp: join_def open_end_def)

lemma valid_last: "valid_name n \<Longrightarrow> last n \<noteq> CHR ''/''"
  by (metis last_in_set valid_name_def)

lemma valid_hd: "valid_name n \<Longrightarrow> hd n \<noteq> CHR ''/''"
  by (metis hd_in_set valid_name_def)

lemma valid_open_end: "valid_name n \<Longrightarrow> open_end n"
  using valid_last [of n] by (simp add: valid_name_def open_end_def)

lemma open_end_snoc: "valid_name n \<Longrightarrow> open_end (a @ CHR ''/'' # n)"
  using valid_last [of n] by (simp add: valid_name_def open_end_def)

lemma open_end_path_of: "open_end tp \<Longrightarrow> list_all valid_name R \<Longrightarrow> open_end (path_of tp R)"
proof (induction R arbitrary: tp)
  case Nil
  then show ?case by simp
next
  case (Cons n R)
  then show ?case by (simp add: path_of_Cons open_end_snoc)
qed

lemma join_valid: "open_end a \<Longrightarrow> valid_name n \<Longrightarrow> join a n = a @ CHR ''/'' # n"
  using valid_hd [of n] by (simp add: join_open_end)

lemma join_path_of:
  "open_end tp \<Longrightarrow> list_all valid_name R \<Longrightarrow> valid_name n \<Longrightarrow>
   join (path_of tp R) n = path_of tp (R @ [n])"
  by (simp add: path_of_snoc join_valid open_end_path_of)

lemma drop_path_of:
  "drop (length tp + 1) (path_of tp (n # R)) = rel_of (n # R)"
  by (simp add: path_of_def rel_of_def)

lemma hd_rel_of: "valid_name n \<Longrightarrow> rel_of (n # R) \<noteq> [] \<and> hd (rel_of (n # R)) \<noteq> CHR ''/''"
  by (cases n) (auto simp: rel_of_def valid_name_def)

lemma join_rel_of:
  "open_end d \<Longrightarrow> valid_name n \<Longrightarrow> join d (rel_of (n # R)) = path_of d (n # R)"
  using hd_rel_of [of n R]
  by (simp add: join_open_end) (simp add: rel_of_def path_of_def)

lemma resolve_join_rel_of:
  assumes "valid_name d" "list_all valid_name R" "R \<noteq> []"
  shows "resolve (join d (rel_of R)) = Some (d # R)"
proof -
  from assms(3) obtain n R' where R: "R = n # R'" by (cases R) auto
  with assms have "join d (rel_of R) = path_of d R"
    by (simp add: join_rel_of valid_open_end)
  then show ?thesis using assms by (simp add: resolve_path_of)
qed

lemma wf_entry:
  "wf_node (Dir es) \<Longrightarrow> (n, sub) \<in> set es \<Longrightarrow>
   valid_name n \<and> wf_node sub \<and> map_of es n = Some sub"
  by (auto simp: list_all_iff)

lemma wf_map_of:
  "wf_node (Dir es) \<Longrightarrow> map_of es n = Some sub \<Longrightarrow> valid_name n \<and> wf_node sub"
  by (auto simp: list_all_iff dest: map_of_SomeD)

lemma wf_lookup: "wf_node t \<Longrightarrow> lookup t p = Some n \<Longrightarrow> wf_node n"
proof (induction t p rule: lookup.induct)
  case (3 es x xs)
  then show ?case using wf_map_of [of es x] by (auto split: option.splits)
qed auto

lemma lookup_valid: "wf_node t \<Longrightarrow> lookup t p = Some n \<Longrightarrow> list_all valid_name p"
proof (induction t p rule: lookup.induct)
  case (3 es x xs)
  then show ?case using wf_map_of [of es x] by (auto split: option.splits)
qed auto

lemma file_names_iff:
  "f \<in> set [name. (name, File c) \<leftarrow> es] \<longleftrightarrow> (\<exists>c. (f, File c) \<in> set es)"
  by (induction es) (auto split: node.splits)

lemma lookup_append:
  "lookup t (p @ q) = (case lookup t p of None \<Rightarrow> None | Some n \<Rightarrow> lookup n q)"
  by (induction t p rule: lookup.induct) (auto split: option.splits)

lemma walk_node_entry:
  "wf_node t \<Longrightarrow> open_end tp \<Longrightarrow> (sd, ds, fs) \<in> set (walk_node tp t) \<Longrightarrow>
   \<exists>R es. sd = path_of tp R \<and> lookup t R = Some (Dir es) \<and>
          fs = [name. (name, File c) \<leftarrow> es]"
proof (induction tp t arbitrary: sd ds fs rule: walk_node.induct)
  case (1 tp c)
  then show ?case by simp
next
  case (2 tp es)
  from 2(4) consider (here) "sd = tp" "fs = [name. (name, File c) \<leftarrow> es]"
    | (below) name sub where "(name, sub) \<in> set es" "(sd, ds, fs) \<in> set (walk_node (join tp name) sub)"
    by auto
  then show ?case
  proof cases
    case here
    then have "sd = path_of tp [] \<and> lookup (Dir es) [] = Some (Dir es) \<and>
        fs = [name. (name, File c) \<leftarrow> es]" by simp
    then show ?thesis by blast
  next
    case below
    from wf_entry [OF 2(2) below(1)] have v: "valid_name name" and w: "wf_node sub"
      and m: "map_of es name = Some sub" by auto
    have j: "join tp name = tp @ CHR ''/'' # name"
      using 2(3) v by (rule join_valid)
    have oe: "open_end (join tp name)"
      using v by (simp add: j open_end_snoc)
    from 2(1) [OF below(1) refl w oe below(2)]
    obtain R es' where R: "sd = path_of (join tp name) R" "lookup sub R = Some (Dir es')"
        "fs = [name. (name, File c) \<leftarrow> es']"
      by blast
    then have "sd = path_of tp (name # R) \<and> lookup (Dir es) (name # R) = Some (Dir es') \<and>
        fs = [name. (name, File c) \<leftarrow> es']"
      using m j by (simp add: path_of_Cons)
    then show ?thesis by blast
  qed
qed

lemma resolve_valid: "valid_name d \<Longrightarrow> resolve d = Some [d]"
  using resolve_path_of [of d "[]"] by simp

lemma walk_files_entry:
  assumes "wf_node fs" "valid_name tp" "(sd, f) \<in> set (walk_files fs tp)"
  shows "\<exists>R c. sd = path_of tp R \<and> list_all valid_name (R @ [f]) \<and>
           lookup fs (tp # R @ [f]) = Some (File c)"
proof -
  from assms(3) obtain ds fl where e: "(sd, ds, fl) \<in> set (walk fs tp)" and f: "f \<in> set fl"
    by (auto simp: walk_files_def)
  from e assms(2) obtain n where n: "lookup fs [tp] = Some n" and en: "(sd, ds, fl) \<in> set (walk_node tp n)"
    by (cases "lookup fs [tp]") (auto simp: walk_def resolve_valid)
  have wn: "wf_node n" using wf_lookup [OF assms(1) n] .
  from walk_node_entry [OF wn valid_open_end [OF assms(2)] en]
  obtain R es where R: "sd = path_of tp R" "lookup n R = Some (Dir es)"
      "fl = [name. (name, File c) \<leftarrow> es]"
    by blast
  from f R(3) obtain c where c: "(f, File c) \<in> set es"
    by (auto simp: file_names_iff)
  have wes: "wf_node (Dir es)" using wf_lookup [OF wn R(2)] .
  from wf_entry [OF wes c] have m: "map_of es f = Some (File c)" by simp
  have l1: "lookup fs ([tp] @ R) = Some (Dir es)"
    using n R(2) by (simp only: lookup_append) simp
  have l: "lookup fs (([tp] @ R) @ [f]) = Some (File c)"
    using l1 m by (simp only: lookup_append) simp
  then have l': "lookup fs (tp # R @ [f]) = Some (File c)" by simp
  from lookup_valid [OF assms(1) l'] have "list_all valid_name (R @ [f])" by simp
  with R(1) l' show ?thesis by blast
qed

lemma dirname_snoc:
  assumes "open_end a" "\<exists>c \<in> set a. c \<noteq> CHR ''/''" "CHR ''/'' \<notin> set x"
  shows "dirname (a @ CHR ''/'' # x) = a"
proof -
  have "dropWhile (\<lambda>c. c \<noteq> CHR ''/'') (rev x @ CHR ''/'' # rev a) =
      dropWhile (\<lambda>c. c \<noteq> CHR ''/'') (CHR ''/'' # rev a)"
    by (rule dropWhile_append2) (use assms(3) in auto)
  then have 1: "dropWhile (\<lambda>c. c \<noteq> CHR ''/'') (rev (a @ CHR ''/'' # x)) = CHR ''/'' # rev a"
    by simp
  obtain b bs where b: "rev a = b # bs" "b \<noteq> CHR ''/''"
    using assms(1) by (cases a rule: rev_cases) (auto simp: open_end_def)
  have 2: "dropWhile (\<lambda>c. c = CHR ''/'') (rev (a @ ''/'')) = rev a"
    using b by simp
  show ?thesis
    using assms(2) unfolding dirname_def 1 Let_def
    by (simp add: 2 [simplified])
qed

lemma path_of_has_char: "valid_name d \<Longrightarrow> \<exists>c \<in> set (path_of d R). c \<noteq> CHR ''/''"
  by (cases d) (auto simp: path_of_def valid_name_def)

lemma dirname_path_of:
  assumes "valid_name d" "list_all valid_name (R @ [x])"
  shows "dirname (path_of d (R @ [x])) = path_of d R"
proof -
  have "open_end (path_of d R)"
    using assms by (intro open_end_path_of valid_open_end) auto
  moreover have "CHR ''/'' \<notin> set x" using assms by (simp add: valid_name_def)
  ultimately show ?thesis
    using path_of_has_char [OF assms(1), of R] by (simp add: path_of_snoc dirname_snoc)
qed

lemma rel_of_snoc_app: "rel_of (R @ [f]) @ s = rel_of (R @ [f @ s])"
  by (cases "concat (map ((#) CHR ''/'') R)") (simp_all add: rel_of_def)

lemma valid_name_patch: "valid_name f \<Longrightarrow> valid_name (f @ ''.patch'')"
  by (auto simp: valid_name_def)

text \<open>Everything the body of a loop computes from an entry of the walk.\<close>

lemma entry_paths:
  assumes "valid_name tp" "list_all valid_name (R @ [f])" "valid_name d"
  shows "join (path_of tp R) f = path_of tp (R @ [f])"
    and "resolve (join (path_of tp R) f) = Some (tp # R @ [f])"
    and "drop (length tp + 1) (join (path_of tp R) f) = rel_of (R @ [f])"
    and "join d (rel_of (R @ [f])) = path_of d (R @ [f])"
    and "resolve (join d (rel_of (R @ [f]))) = Some (d # R @ [f])"
    and "dirname (join d (rel_of (R @ [f]))) = path_of d R"
    and "resolve (dirname (join d (rel_of (R @ [f])))) = Some (d # R)"
    and "join d (rel_of (R @ [f]) @ ''.'' @ PATCH_EXTENSION) = path_of d (R @ [f @ ''.patch''])"
    and "resolve (join d (rel_of (R @ [f]) @ ''.'' @ PATCH_EXTENSION)) = Some (d # R @ [f @ ''.patch''])"
    and "dirname (join d (rel_of (R @ [f]) @ ''.'' @ PATCH_EXTENSION)) = path_of d R"
proof -
  have vR: "list_all valid_name R" and vf: "valid_name f" using assms(2) by auto
  show 1: "join (path_of tp R) f = path_of tp (R @ [f])"
    using assms vR vf by (simp add: join_path_of valid_open_end)
  show "resolve (join (path_of tp R) f) = Some (tp # R @ [f])"
    using assms by (simp only: 1 resolve_path_of)
  obtain n R' where n: "R @ [f] = n # R'" by (cases "R @ [f]") auto
  have vn: "valid_name n" using assms(2) unfolding n by simp
  show "drop (length tp + 1) (join (path_of tp R) f) = rel_of (R @ [f])"
    unfolding 1 n by (rule drop_path_of)
  show 4: "join d (rel_of (R @ [f])) = path_of d (R @ [f])"
    unfolding n using assms(3) vn by (simp add: join_rel_of valid_open_end)
  show "resolve (join d (rel_of (R @ [f]))) = Some (d # R @ [f])"
    using assms by (simp only: 4 resolve_path_of)
  show 6: "dirname (join d (rel_of (R @ [f]))) = path_of d R"
    using assms by (simp only: 4 dirname_path_of)
  show "resolve (dirname (join d (rel_of (R @ [f])))) = Some (d # R)"
    using assms vR by (simp only: 6 resolve_path_of)
  have vp: "list_all valid_name (R @ [f @ ''.patch''])"
    using vR vf by (simp add: valid_name_patch)
  have e: "rel_of (R @ [f]) @ ''.'' @ PATCH_EXTENSION = rel_of (R @ [f @ ''.patch''])"
    by (simp add: PATCH_EXTENSION_def rel_of_snoc_app)
  obtain m R'' where m: "R @ [f @ ''.patch''] = m # R''" by (cases "R @ [f @ ''.patch'']") auto
  have vm: "valid_name m" using vp unfolding m by simp
  show 8: "join d (rel_of (R @ [f]) @ ''.'' @ PATCH_EXTENSION) = path_of d (R @ [f @ ''.patch''])"
    unfolding e m using assms(3) vm by (simp add: join_rel_of valid_open_end)
  show "resolve (join d (rel_of (R @ [f]) @ ''.'' @ PATCH_EXTENSION)) = Some (d # R @ [f @ ''.patch''])"
    using assms(3) vp by (simp only: 8 resolve_path_of)
  show "dirname (join d (rel_of (R @ [f]) @ ''.'' @ PATCH_EXTENSION)) = path_of d R"
    using assms(3) vp by (simp only: 8 dirname_path_of)
qed

lemma lookup_Cons_via:
  "lookup fs (x # q) = (case lookup fs [x] of None \<Rightarrow> None | Some n \<Rightarrow> lookup n q)"
  using lookup_append [of fs "[x]" q] by simp

lemma isdir_valid: "valid_name d \<Longrightarrow> isdir fs d = (\<exists>es. lookup fs [d] = Some (Dir es))"
  by (auto simp: isdir_def resolve_valid split: option.splits node.splits)

lemma rmtree_top:
  assumes "valid_name d"
  shows "(if path_exists fs d \<and> isdir fs d then rmtree fs d else Inr fs) = Inr (drop_dir fs d)"
proof (cases "isdir fs d")
  case True
  then obtain es where "lookup fs [d] = Some (Dir es)"
    using assms by (auto simp: isdir_valid)
  then show ?thesis using True assms
    by (simp add: drop_dir_def rmtree_def path_exists_def resolve_valid)
next
  case False
  then show ?thesis by (simp add: drop_dir_def)
qed

lemma remove_top_lookup:
  "lookup (remove fs [d]) (x # q) = (if x = d then None else lookup fs (x # q))"
  by (cases fs) (auto simp: delete_conv' isdir_def split: option.splits)

lemma drop_dir_lookup_other: "x \<noteq> d \<Longrightarrow> lookup (drop_dir fs d) (x # q) = lookup fs (x # q)"
  by (simp add: drop_dir_def remove_top_lookup)

lemma drop_dir_not_dir: "valid_name d \<Longrightarrow> \<not> isdir (drop_dir fs d) d"
  by (auto simp: drop_dir_def isdir_valid remove_top_lookup)

lemma drop_dir_isdir_other:
  "valid_name d \<Longrightarrow> valid_name x \<Longrightarrow> x \<noteq> d \<Longrightarrow> isdir (drop_dir fs d) x = isdir fs x"
  by (simp add: isdir_valid drop_dir_lookup_other)

lemma walk_cong: "lookup fs [d] = lookup fs' [d] \<Longrightarrow> valid_name d \<Longrightarrow> walk fs d = walk fs' d"
  by (simp add: walk_def resolve_valid)

lemma walk_files_cong:
  "lookup fs [d] = lookup fs' [d] \<Longrightarrow> valid_name d \<Longrightarrow> walk_files fs d = walk_files fs' d"
  using walk_cong [of fs d fs'] by (simp add: walk_files_def)

lemma walk_not_dir: "valid_name d \<Longrightarrow> \<not> isdir fs d \<Longrightarrow> walk fs d = []"
  by (cases "lookup fs [d]"; cases "the (lookup fs [d])")
     (auto simp: walk_def resolve_valid isdir_valid)

lemma output_working_unfold:
  assumes "valid_name pd" "valid_name od"
  shows "output_working cp cd wd pd od time fs =
     for_each (output_working_file cp cd wd pd od time)
       (walk_files (drop_dir (drop_dir fs od) pd) wd) (drop_dir (drop_dir fs od) pd)"
  by (simp add: output_working_def rmtree_top [OF assms(2)] rmtree_top [OF assms(1)])

lemma for_each_noop:
  "(\<And>x. x \<in> set xs \<Longrightarrow> body x s = Inr s) \<Longrightarrow> for_each body xs s = Inr s"
  by (induction xs) auto

lemma step_noop:
  assumes names: "valid_name cd" "valid_name wd" "valid_name pd"
    and R: "list_all valid_name (R @ [f])"
    and w: "lookup s (wd # R @ [f]) = Some (File c)"
    and c: "lookup s (cd # R @ [f]) = Some (File c)"
    and u: "utf8_valid c"
    and noop: "\<And>a x t. cp a a x t = []"
  shows "output_working_file cp cd wd pd od time (path_of wd R, f) s = Inr s"
proof -
  note ew = entry_paths [OF names(2) R names(1)]
  have ex: "path_exists s (join cd (rel_of (R @ [f])))"
    using c by (simp add: path_exists_def ew(5))
  have rw: "read_bytes s (join (path_of wd R) f) = Inr c"
    using w by (simp add: read_bytes_def ew(2))
  have rc: "read_bytes s (join cd (rel_of (R @ [f]))) = Inr c"
    using c by (simp add: read_bytes_def ew(5))
  have dc: "decode_text c = Inr (universal_newlines c)"
    using u by (simp add: decode_text_def)
  show ?thesis
    using ex rw rc dc noop
    by (simp add: output_working_file_def ew(3) [simplified] generate_patch_def Let_def)
qed

lemma all_text_lookup: "all_text t \<Longrightarrow> lookup t p = Some (File c) \<Longrightarrow> utf8_valid c"
proof (induction t p rule: lookup.induct)
  case (3 es x xs)
  then show ?case by (auto simp: list_all_iff split: option.splits dest: map_of_SomeD)
qed auto

lemma capture_noop_loop:
  assumes wf: "wf_node fs"
    and names: "valid_name cd" "valid_name wd" "valid_name pd" "valid_name od"
    and dist: "distinct [cd, wd, pd, od]"
    and same: "\<And>q c. lookup fs (wd # q) = Some (File c) \<Longrightarrow> lookup fs (cd # q) = Some (File c)"
    and utf: "\<And>q c. lookup fs (wd # q) = Some (File c) \<Longrightarrow> utf8_valid c"
    and noop: "\<And>a x t. cp a a x t = []"
  shows "for_each (output_working_file cp cd wd pd od time)
           (walk_files (drop_dir (drop_dir fs od) pd) wd) (drop_dir (drop_dir fs od) pd)
         = Inr (drop_dir (drop_dir fs od) pd)"
proof -
  let ?fs2 = "drop_dir (drop_dir fs od) pd"
  have keep: "lookup ?fs2 (x # q) = lookup fs (x # q)" if "x \<noteq> od" "x \<noteq> pd" for x q
    using that by (simp add: drop_dir_lookup_other)
  have wk: "walk_files ?fs2 wd = walk_files fs wd"
    using dist names(2) by (intro walk_files_cong) (simp_all add: keep)
  have "output_working_file cp cd wd pd od time e ?fs2 = Inr ?fs2"
    if e: "e \<in> set (walk_files fs wd)" for e
  proof -
    obtain sd f where sf: "e = (sd, f)" by (cases e)
    from walk_files_entry [OF wf names(2) e [unfolded sf]]
    obtain R c where R: "sd = path_of wd R" "list_all valid_name (R @ [f])"
        "lookup fs (wd # R @ [f]) = Some (File c)"
      by blast
    have "lookup fs (cd # R @ [f]) = Some (File c)"
      using R(3) by (rule same)
    then have c2: "lookup ?fs2 (cd # R @ [f]) = Some (File c)"
      using dist by (simp add: keep)
    have w2: "lookup ?fs2 (wd # R @ [f]) = Some (File c)"
      using R(3) dist by (simp add: keep)
    have u: "utf8_valid c"
      using R(3) by (rule utf)
    show ?thesis
      unfolding sf R(1)
      by (rule step_noop [OF names(1) names(2) names(3) R(2) w2 c2 u noop])
  qed
  then show ?thesis
    unfolding wk by (intro for_each_noop) simp
qed

text \<open>
  Capture without edits, for directories named directly below the root by four
  different names. Capture starts by deleting the output directory and the patch
  directory when they are directories, whatever they hold. When every file of the
  working tree is in the clean tree with the same bytes (as when the two trees are the
  same), these files are UTF-8 text, and the diff of a text against itself is empty,
  capture returns the state with the two directories deleted and writes nothing, a
  second capture of that state (at any time) returns it unchanged, and after each of
  the two no file is found under the patch directory or the output directory: neither
  directory exists.
\<close>

theorem capture_noop:
  assumes wf: "wf_node fs"
    and names: "valid_name cd" "valid_name wd" "valid_name pd" "valid_name od"
    and dist: "distinct [cd, wd, pd, od]"
    and same: "\<forall>q c. lookup fs (wd # q) = Some (File c) \<longrightarrow> lookup fs (cd # q) = Some (File c)"
    and utf: "\<forall>q c. lookup fs (wd # q) = Some (File c) \<longrightarrow> utf8_valid c"
    and noop: "\<forall>a x t. cp a a x t = []"
  shows "output_working cp cd wd pd od time fs = Inr (drop_dir (drop_dir fs od) pd) \<and>
         output_working cp cd wd pd od time' (drop_dir (drop_dir fs od) pd) =
           Inr (drop_dir (drop_dir fs od) pd) \<and>
         \<not> isdir (drop_dir (drop_dir fs od) pd) pd \<and>
         \<not> isdir (drop_dir (drop_dir fs od) pd) od \<and>
         walk_files (drop_dir (drop_dir fs od) pd) pd = [] \<and>
         walk_files (drop_dir (drop_dir fs od) pd) od = []"
proof -
  let ?fs2 = "drop_dir (drop_dir fs od) pd"
  from noop have noop': "\<And>a x t. cp a a x t = []" by simp
  from same have same': "\<And>q c. lookup fs (wd # q) = Some (File c) \<Longrightarrow>
      lookup fs (cd # q) = Some (File c)" by simp
  from utf have utf': "\<And>q c. lookup fs (wd # q) = Some (File c) \<Longrightarrow> utf8_valid c" by simp
  have np: "\<not> isdir ?fs2 pd"
    using names(3) by (rule drop_dir_not_dir)
  have "od \<noteq> pd" using dist by auto
  then have "isdir ?fs2 od = isdir (drop_dir fs od) od"
    by (rule drop_dir_isdir_other [OF names(3) names(4)])
  then have no: "\<not> isdir ?fs2 od"
    using drop_dir_not_dir [OF names(4), of fs] by simp
  have again: "drop_dir (drop_dir ?fs2 od) pd = ?fs2"
    using np no by (simp add: drop_dir_def)
  have 1: "output_working cp cd wd pd od time fs = Inr ?fs2"
    unfolding output_working_unfold [OF names(3) names(4)]
    by (rule capture_noop_loop [OF wf names dist same' utf' noop'])
  have 2: "output_working cp cd wd pd od time' ?fs2 = Inr ?fs2"
    unfolding output_working_unfold [OF names(3) names(4)] again
    by (rule capture_noop_loop [OF wf names dist same' utf' noop'])
  have 3: "walk_files ?fs2 pd = []"
    using walk_not_dir [OF names(3) np] by (simp add: walk_files_def)
  have 4: "walk_files ?fs2 od = []"
    using walk_not_dir [OF names(4) no] by (simp add: walk_files_def)
  from 1 2 np no 3 4 show ?thesis by blast
qed

theorem capture_noop_witness:
  "wf_node (Dir [(''_clean'', Dir [(''a.txt'', File ''hello''), (''sub'', Dir [(''b.txt'', File ''x'')])]),
                 (''_src'', Dir [(''sub'', Dir [(''b.txt'', File ''x'')]), (''a.txt'', File ''hello'')]),
                 (''_patches'', Dir [(''a.txt.patch'', File ''stale'')]),
                 (''_out'', Dir [(''old.txt'', File ''stale'')])]) \<and>
   output_working (\<lambda>a b f t. if a = b then [] else f @ t @ b) ''_clean'' ''_src'' ''_patches'' ''_out'' ''t1''
     (Dir [(''_clean'', Dir [(''a.txt'', File ''hello''), (''sub'', Dir [(''b.txt'', File ''x'')])]),
           (''_src'', Dir [(''sub'', Dir [(''b.txt'', File ''x'')]), (''a.txt'', File ''hello'')]),
           (''_patches'', Dir [(''a.txt.patch'', File ''stale'')]),
           (''_out'', Dir [(''old.txt'', File ''stale'')])])
   = Inr (Dir [(''_clean'', Dir [(''a.txt'', File ''hello''), (''sub'', Dir [(''b.txt'', File ''x'')])]),
               (''_src'', Dir [(''sub'', Dir [(''b.txt'', File ''x'')]), (''a.txt'', File ''hello'')])]) \<and>
   output_working (\<lambda>a b f t. if a = b then [] else f @ t @ b) ''_clean'' ''_src'' ''_patches'' ''_out'' ''t2''
     (Dir [(''_clean'', Dir [(''a.txt'', File ''hello''), (''sub'', Dir [(''b.txt'', File ''x'')])]),
           (''_src'', Dir [(''sub'', Dir [(''b.txt'', File ''x'')]), (''a.txt'', File ''hello'')])])
   = Inr (Dir [(''_clean'', Dir [(''a.txt'', File ''hello''), (''sub'', Dir [(''b.txt'', File ''x'')])]),
               (''_src'', Dir [(''sub'', Dir [(''b.txt'', File ''x'')]), (''a.txt'', File ''hello'')])]) \<and>
   walk_files (Dir [(''_clean'', Dir [(''a.txt'', File ''hello''), (''sub'', Dir [(''b.txt'', File ''x'')])]),
               (''_src'', Dir [(''sub'', Dir [(''b.txt'', File ''x'')]), (''a.txt'', File ''hello'')])])
     ''_patches'' = [] \<and>
   walk_files (Dir [(''_clean'', Dir [(''a.txt'', File ''hello''), (''sub'', Dir [(''b.txt'', File ''x'')])]),
               (''_src'', Dir [(''sub'', Dir [(''b.txt'', File ''x'')]), (''a.txt'', File ''hello'')])])
     ''_out'' = []"
proof -
  let ?t = "Dir [(''a.txt'', File ''hello''), (''sub'', Dir [(''b.txt'', File ''x'')])]"
  let ?u = "Dir [(''sub'', Dir [(''b.txt'', File ''x'')]), (''a.txt'', File ''hello'')]"
  let ?fs = "Dir [(''_clean'', ?t), (''_src'', ?u),
                  (''_patches'', Dir [(''a.txt.patch'', File ''stale'')]),
                  (''_out'', Dir [(''old.txt'', File ''stale'')])]"
  let ?fs2 = "Dir [(''_clean'', ?t), (''_src'', ?u)]"
  let ?cp = "\<lambda>a b f t. if a = b then [] else f @ t @ b"
  have wf: "wf_node ?fs" by (simp add: valid_name_def)
  have n: "valid_name ''_clean''" "valid_name ''_src''" "valid_name ''_patches''" "valid_name ''_out''"
    by (simp_all add: valid_name_def)
  have d: "distinct [''_clean'', ''_src'', ''_patches'', ''_out'']" by simp
  have lu: "lookup ?u q = Some (File c) \<longleftrightarrow>
      q = [''sub'', ''b.txt''] \<and> c = ''x'' \<or> q = [''a.txt''] \<and> c = ''hello''" for q c
  proof (cases q)
    case Nil
    then show ?thesis by simp
  next
    case (Cons x r)
    then show ?thesis
      by (cases r; cases "tl r") auto
  qed
  have s: "\<forall>q c. lookup ?fs (''_src'' # q) = Some (File c) \<longrightarrow>
      lookup ?fs (''_clean'' # q) = Some (File c)"
    using lu by auto
  have at: "all_text ?u" by code_simp
  have t: "\<forall>q c. lookup ?fs (''_src'' # q) = Some (File c) \<longrightarrow> utf8_valid c"
    using all_text_lookup [OF at] by simp
  have c: "\<forall>a x t. ?cp a a x t = []" by simp
  have e: "drop_dir (drop_dir ?fs ''_out'') ''_patches'' = ?fs2"
    by (simp add: drop_dir_def isdir_valid n)
  note inst = capture_noop [where cp = ?cp and time = "''t1''" and time' = "''t2''",
      OF wf n d s t c]
  from inst wf show ?thesis
    unfolding e by simp
qed

text \<open>
  C4, for a working directory given with a slash at its end. The working tree is the
  clean tree, file for file; the slice \<open>work_path[(len(working_dir) + 1):]\<close> of
  \<open>output_working\<close> cuts \<open>a.txt\<close> to \<open>.txt\<close> and \<open>sub/b.txt\<close> to \<open>ub/b.txt\<close>, neither
  is found in the clean directory, and capture, whatever \<open>create_patch\<close> is, copies both
  files to the output directory; a second capture does the same. The output directory
  is not empty after either.
\<close>

theorem capture_noop_trailing_separator:
  "output_working cp ''_clean'' ''_src/'' ''_patches'' ''_out'' time
     (Dir [(''_clean'', Dir [(''a.txt'', File ''hello''), (''sub'', Dir [(''b.txt'', File ''x'')])]),
           (''_src'', Dir [(''a.txt'', File ''hello''), (''sub'', Dir [(''b.txt'', File ''x'')])])])
   = Inr (Dir [(''_clean'', Dir [(''a.txt'', File ''hello''), (''sub'', Dir [(''b.txt'', File ''x'')])]),
               (''_src'', Dir [(''a.txt'', File ''hello''), (''sub'', Dir [(''b.txt'', File ''x'')])]),
               (''_out'', Dir [(''.txt'', File ''hello''), (''ub'', Dir [(''b.txt'', File ''x'')])])]) \<and>
   output_working cp ''_clean'' ''_src/'' ''_patches'' ''_out'' time'
     (Dir [(''_clean'', Dir [(''a.txt'', File ''hello''), (''sub'', Dir [(''b.txt'', File ''x'')])]),
           (''_src'', Dir [(''a.txt'', File ''hello''), (''sub'', Dir [(''b.txt'', File ''x'')])]),
           (''_out'', Dir [(''.txt'', File ''hello''), (''ub'', Dir [(''b.txt'', File ''x'')])])])
   = Inr (Dir [(''_clean'', Dir [(''a.txt'', File ''hello''), (''sub'', Dir [(''b.txt'', File ''x'')])]),
               (''_src'', Dir [(''a.txt'', File ''hello''), (''sub'', Dir [(''b.txt'', File ''x'')])]),
               (''_out'', Dir [(''.txt'', File ''hello''), (''ub'', Dir [(''b.txt'', File ''x'')])])]) \<and>
   walk_files
     (Dir [(''_clean'', Dir [(''a.txt'', File ''hello''), (''sub'', Dir [(''b.txt'', File ''x'')])]),
           (''_src'', Dir [(''a.txt'', File ''hello''), (''sub'', Dir [(''b.txt'', File ''x'')])]),
           (''_out'', Dir [(''.txt'', File ''hello''), (''ub'', Dir [(''b.txt'', File ''x'')])])])
     ''_out''
   = [(''_out'', ''.txt''), (''_out/ub'', ''b.txt'')]"
  by code_simp

lemma mkdirs_not_file:
  "mkdirs fs cs = Some fs' \<Longrightarrow> prefix q cs \<Longrightarrow> view fs q \<noteq> Some (F c)"
proof (induction fs cs arbitrary: fs' q rule: mkdirs.induct)
  case (1 c xs)
  then show ?case by simp
next
  case (2 es)
  then show ?case by auto
next
  case (3 es x xs)
  let ?n = "case map_of es x of None \<Rightarrow> Dir [] | Some n \<Rightarrow> n"
  from 3(2) obtain n' where n': "mkdirs ?n xs = Some n'"
    by (auto split: option.splits)
  show ?case
  proof (cases q)
    case Nil
    then show ?thesis by simp
  next
    case (Cons z r)
    with 3(3) have z: "z = x" and r: "prefix r xs" by auto
    from 3(1) [OF n' r] have "view ?n r \<noteq> Some (F c)" .
    then show ?thesis using Cons z
      by (cases "map_of es x") (auto simp: view_Dir_Cons)
  qed
qed

lemma makedirs_writes:
  assumes "makedirs fs p ok = Inr fs'"
  shows "\<exists>cs. resolve p = Some cs \<and>
    (\<forall>q. view fs' q = (if prefix q cs then Some D else view fs q)) \<and>
    (\<forall>q c. prefix q cs \<longrightarrow> view fs q \<noteq> Some (F c))"
proof -
  from assms obtain cs where cs: "resolve p = Some cs"
    by (auto simp: makedirs_def split: option.splits)
  from assms cs have m: "mkdirs fs cs = Some fs'"
    by (auto simp: makedirs_def split: option.splits if_splits)
  from mkdirs_view [OF m] mkdirs_not_file [OF m] cs show ?thesis by blast
qed

lemma generate_patch_view:
  assumes g: "generate_patch cp path work_path clean_path pd time s = Inr s'"
    and W: "resolve work_path = Some W" and C: "resolve clean_path = Some C"
    and T: "resolve (join pd (path @ ''.'' @ PATCH_EXTENSION)) = Some T"
    and P: "resolve (dirname (join pd (path @ ''.'' @ PATCH_EXTENSION))) = Some P"
    and TP: "\<not> prefix T P"
  shows "\<exists>w c. view s W = Some (F w) \<and> view s C = Some (F c) \<and>
     (if cp (universal_newlines c) (universal_newlines w) (as_posix path) time = [] then s' = s
      else writes s s' T P (cp (universal_newlines c) (universal_newlines w) (as_posix path) time))"
proof -
  from g obtain w c wt ct where wb: "read_bytes s work_path = Inr w"
    and cb: "read_bytes s clean_path = Inr c"
    and ct: "decode_text c = Inr ct"
    and wt: "decode_text w = Inr wt"
    by (auto simp: generate_patch_def split: sum.splits)
  from wb W have w: "view s W = Some (F w)"
    by (auto simp: read_bytes_view)
  from cb C have c: "view s C = Some (F c)"
    by (auto simp: read_bytes_view)
  from wt ct have dt: "wt = universal_newlines w" "ct = universal_newlines c"
    by (simp_all add: decode_text_Inr)
  let ?d = "cp (universal_newlines c) (universal_newlines w) (as_posix path) time"
  show ?thesis
  proof (cases "?d = []")
    case True
    then have "s' = s" using g wb cb wt ct dt by (simp add: generate_patch_def)
    with w c True show ?thesis by auto
  next
    case False
    from g wb cb wt ct dt False obtain s1
      where m: "makedirs s (dirname (join pd (path @ ''.'' @ PATCH_EXTENSION))) True = Inr s1"
        and wr: "write_file s1 (join pd (path @ ''.'' @ PATCH_EXTENSION)) ?d = Inr s'"
      by (auto simp: generate_patch_def Let_def split: sum.splits)
    from makedirs_writes [OF m] P
    have m1: "\<And>q. view s1 q = (if prefix q P then Some D else view s q)"
      and m2: "\<And>q c. prefix q P \<Longrightarrow> view s q \<noteq> Some (F c)"
      by auto
    from write_file_view [OF wr] T
    have w1: "view s1 T \<noteq> Some D" and w2: "\<And>q. view s' q = ((view s1)(T \<mapsto> F ?d)) q"
      by auto
    have "writes s s' T P ?d"
      unfolding writes_def using m1 m2 w1 w2 TP by auto
    with w c False show ?thesis by auto
  qed
qed

lemma output_file_view:
  assumes g: "output_file path work_path od s = Inr s'"
    and W: "resolve work_path = Some W"
    and Qr: "resolve (join od path) = Some Q"
    and P: "resolve (dirname (join od path)) = Some P"
    and OD: "view s Q \<noteq> Some D" and OP: "\<not> prefix Q P" and WP: "\<not> prefix W P"
  shows "\<exists>w. view s W = Some (F w) \<and> writes s s' Q P w"
proof -
  from g obtain s1 where m: "makedirs s (dirname (join od path)) True = Inr s1"
    and cp: "copy s1 work_path (join od path) = Inr s'"
    by (auto simp: output_file_def Let_def split: sum.splits)
  from makedirs_writes [OF m] P
  have m1: "\<And>q. view s1 q = (if prefix q P then Some D else view s q)"
    and m2: "\<And>q c. prefix q P \<Longrightarrow> view s q \<noteq> Some (F c)"
    by auto
  have "view s1 Q \<noteq> Some D" using m1 [of Q] OD OP by simp
  then have nd: "\<not> isdir s1 (join od path)"
    using Qr by (simp add: isdir_view)
  from cp nd obtain w where r: "read_bytes s1 work_path = Inr w"
    and wr: "write_file s1 (join od path) w = Inr s'"
    by (auto simp: copy_def Let_def split: if_splits sum.splits)
  from r W have "view s1 W = Some (F w)" by (simp add: read_bytes_view)
  then have w: "view s W = Some (F w)" using m1 [of W] WP by simp
  from write_file_view [OF wr] Qr
  have w2: "\<And>q. view s' q = ((view s1)(Q \<mapsto> F w)) q"
    by auto
  have "writes s s' Q P w"
    unfolding writes_def using m1 m2 w2 OD by auto
  with w show ?thesis by blast
qed

text \<open>What one pass of the body of \<open>output_working\<close> does, in components.\<close>

lemma output_working_file_view:
  assumes names: "valid_name cd" "valid_name wd" "valid_name pd" "valid_name od"
    and dist: "wd \<noteq> od"
    and R: "list_all valid_name (R @ [f])"
    and OD: "view s (od # R @ [f]) \<noteq> Some D"
    and g: "output_working_file cp cd wd pd od time (path_of wd R, f) s = Inr s'"
  shows "\<exists>w. view s (wd # R @ [f]) = Some (F w) \<and>
     (if view s (cd # R @ [f]) \<noteq> None
      then \<exists>c. view s (cd # R @ [f]) = Some (F c) \<and>
        (if cp (universal_newlines c) (universal_newlines w) (as_posix (rel_of (R @ [f]))) time = []
         then s' = s
         else writes s s' (pd # R @ [f @ ''.patch'']) (pd # R)
                (cp (universal_newlines c) (universal_newlines w) (as_posix (rel_of (R @ [f]))) time))
      else writes s s' (od # R @ [f]) (od # R) w)"
proof -
  note ec = entry_paths [OF names(2) R names(1)]
  note ep = entry_paths [OF names(2) R names(3)]
  note eo = entry_paths [OF names(2) R names(4)]
  have rel: "drop (length wd + 1) (join (path_of wd R) f) = rel_of (R @ [f])"
    by (rule ec(3))
  have rel': "drop (Suc (length wd)) (join (path_of wd R) f) = rel_of (R @ [f])"
    using rel by simp
  have ex: "path_exists s (join cd (rel_of (R @ [f]))) \<longleftrightarrow> view s (cd # R @ [f]) \<noteq> None"
    by (simp add: path_exists_view ec(5))
  show ?thesis
  proof (cases "view s (cd # R @ [f]) \<noteq> None")
    case True
    then have gp: "generate_patch cp (rel_of (R @ [f])) (join (path_of wd R) f)
        (join cd (rel_of (R @ [f]))) pd time s = Inr s'"
      using g ex by (simp add: output_working_file_def rel' Let_def)
    have np: "\<not> prefix (pd # R @ [f @ ''.patch'']) (pd # R)"
      by (auto simp: prefix_def)
    have vR: "list_all valid_name R" using R by simp
    have hP: "resolve (dirname (join pd (rel_of (R @ [f]) @ ''.'' @ PATCH_EXTENSION))) = Some (pd # R)"
      using names(3) vR by (simp only: ep(10) resolve_path_of)
    from generate_patch_view [OF gp ec(2) ec(5) ep(9) hP np]
    obtain w c where "view s (wd # R @ [f]) = Some (F w)" "view s (cd # R @ [f]) = Some (F c)"
      "if cp (universal_newlines c) (universal_newlines w) (as_posix (rel_of (R @ [f]))) time = []
       then s' = s
       else writes s s' (pd # R @ [f @ ''.patch'']) (pd # R)
              (cp (universal_newlines c) (universal_newlines w) (as_posix (rel_of (R @ [f]))) time)"
      by blast
    then show ?thesis using True by auto
  next
    case False
    then have go: "output_file (rel_of (R @ [f])) (join (path_of wd R) f) od s = Inr s'"
      using g ex by (simp add: output_working_file_def rel' Let_def)
    have p1: "\<not> prefix (od # R @ [f]) (od # R)"
      by (auto simp: prefix_def)
    have p2: "\<not> prefix (wd # R @ [f]) (od # R)"
      using dist by (auto simp: prefix_def)
    from output_file_view [OF go ec(2) eo(5) eo(7) OD p1 p2]
    show ?thesis using False by auto
  qed
qed

lemma view_prefix_dir:
  assumes "view t (p @ r) = Some y" "r \<noteq> []"
  shows "view t p = Some D"
proof (cases "lookup t p")
  case None
  then show ?thesis using assms by (simp add: view_def lookup_append)
next
  case (Some n)
  then show ?thesis using assms
    by (cases n; cases r) (auto simp: view_def lookup_append)
qed

lemma writes_inv:
  assumes inv: "inv_capture cd wd od b s"
    and w: "writes s s' T (butlast T) x"
    and T: "T = od # R @ [f] \<or> T = pd # R @ [g]"
    and fl: "view b (wd # R @ [f]) = Some (F c)"
    and dist: "wd \<noteq> od" "wd \<noteq> pd" "cd \<noteq> od" "cd \<noteq> pd" "od \<noteq> pd"
  shows "inv_capture cd wd od b s'"
proof -
  from w have v: "\<And>q. view s' q =
      (if q = T then Some (F x) else if prefix q (butlast T) then Some D else view s q)"
    by (simp add: writes_def)
  have bl: "butlast T = od # R \<or> butlast T = pd # R"
    using T by (auto simp: butlast_append)
  have a: "view s' (wd # q) = view b (wd # q)" for q
    using v [of "wd # q"] T bl inv dist by (auto simp: inv_capture_def)
  have b: "view s' (cd # q) = view b (cd # q)" for q
    using v [of "cd # q"] T bl inv dist by (auto simp: inv_capture_def)
  have c: "q = [] \<or> view b (wd # q) = Some D" if h: "view s' (od # q) = Some D" for q
  proof (cases "od # q = T")
    case True
    then show ?thesis using v [of "od # q"] h by simp
  next
    case False
    show ?thesis
    proof (cases "prefix (od # q) (butlast T)")
      case True
      with bl dist have p: "prefix q R" by auto
      then obtain r where r: "R = q @ r" by (auto simp: prefix_def)
      have "view b ((wd # q) @ (r @ [f])) = Some (F c)" using fl r by simp
      from view_prefix_dir [OF this] have "view b (wd # q) = Some D" by simp
      then show ?thesis by simp
    next
      case False
      with \<open>od # q \<noteq> T\<close> v [of "od # q"] h have "view s (od # q) = Some D" by simp
      then show ?thesis using inv by (simp add: inv_capture_def)
    qed
  qed
  from a b c show ?thesis unfolding inv_capture_def by blast
qed

lemma step_artifact:
  assumes names: "valid_name cd" "valid_name wd" "valid_name pd" "valid_name od"
    and dist: "distinct [cd, wd, pd, od]"
    and inv: "inv_capture cd wd od b s"
    and R: "list_all valid_name (R @ [f])"
    and w: "view b (wd # R @ [f]) = Some (F w)"
    and g: "output_working_file cp cd wd pd od time (path_of wd R, f) s = Inr s'"
  shows "inv_capture cd wd od b s' \<and> view b (cd # R @ [f]) \<noteq> Some D \<and>
    (case artifact cp cd wd pd od time b (R, f) of
       None \<Rightarrow> s' = s
     | Some (T, x) \<Rightarrow> writes s s' T (butlast T) x \<and>
         (T = od # R @ [f] \<or> T = pd # R @ [f @ ''.patch'']))"
proof -
  have d: "wd \<noteq> od" "wd \<noteq> pd" "cd \<noteq> od" "cd \<noteq> pd" "od \<noteq> pd"
    using dist by auto
  have A: "view s (wd # R @ [f]) = view b (wd # R @ [f])"
    and B: "view s (cd # R @ [f]) = view b (cd # R @ [f])"
    using inv by (simp_all add: inv_capture_def)
  have OD: "view s (od # R @ [f]) \<noteq> Some D"
    using inv w by (auto simp: inv_capture_def)
  from output_working_file_view [OF names d(1) R OD g]
  have step: "if view b (cd # R @ [f]) \<noteq> None
      then \<exists>c. view b (cd # R @ [f]) = Some (F c) \<and>
        (if cp (universal_newlines c) (universal_newlines w) (as_posix (rel_of (R @ [f]))) time = []
         then s' = s
         else writes s s' (pd # R @ [f @ ''.patch'']) (pd # R)
                (cp (universal_newlines c) (universal_newlines w) (as_posix (rel_of (R @ [f]))) time))
      else writes s s' (od # R @ [f]) (od # R) w"
    unfolding A B w by simp
  have bl: "butlast (pd # R @ [f @ ''.patch'']) = pd # R" "butlast (od # R @ [f]) = od # R"
    by (simp_all add: butlast_append)
  have art: "case artifact cp cd wd pd od time b (R, f) of
       None \<Rightarrow> s' = s
     | Some (T, x) \<Rightarrow> writes s s' T (butlast T) x \<and>
         (T = od # R @ [f] \<or> T = pd # R @ [f @ ''.patch''])"
    using step w
    by (cases "view b (cd # R @ [f])")
       (auto simp: artifact_def Let_def bl split: kind.splits if_splits)
  have "inv_capture cd wd od b s'"
  proof (cases "artifact cp cd wd pd od time b (R, f)")
    case None
    then show ?thesis using art inv by simp
  next
    case (Some a)
    obtain T x where a: "a = (T, x)" by (cases a)
    from art Some a have wr: "writes s s' T (butlast T) x"
      and T: "T = od # R @ [f] \<or> T = pd # R @ [f @ ''.patch'']" by auto
    show ?thesis by (rule writes_inv [OF inv wr T w d])
  qed
  moreover have "view b (cd # R @ [f]) \<noteq> Some D"
    using step by (auto split: if_splits)
  ultimately show ?thesis using art by blast
qed

lemma artifact_target:
  assumes "artifact cp cd wd pd od time b e = Some (T, x)"
  shows "T = od # fst e @ [snd e] \<or> T = pd # fst e @ [snd e @ ''.patch'']"
  using assms
  by (auto simp: artifact_def Let_def split: option.splits kind.splits if_splits)

lemma artifact_inj:
  assumes "artifact cp cd wd pd od time b e = Some (T, x)"
    and "artifact cp cd wd pd od time b e' = Some (T, x')"
    and "od \<noteq> pd"
  shows "e = e'"
  using artifact_target [OF assms(1)] artifact_target [OF assms(2)] assms(3)
  by (auto simp: prod_eq_iff)

lemma writes_facts:
  assumes "writes s s1 T P x"
  shows "view s1 T = Some (F x)"
    and "\<And>q y. view s q = Some (F y) \<Longrightarrow> q \<noteq> T \<Longrightarrow> view s1 q = Some (F y)"
    and "\<And>q y. view s1 q = Some (F y) \<Longrightarrow> (q = T \<and> y = x) \<or> view s q = Some (F y)"
proof -
  from assms have v: "\<And>q. view s1 q =
      (if q = T then Some (F x) else if prefix q P then Some D else view s q)"
    and nf: "\<And>q c. prefix q P \<Longrightarrow> view s q \<noteq> Some (F c)"
    by (auto simp: writes_def)
  show "view s1 T = Some (F x)" using v [of T] by simp
  show "view s1 q = Some (F y)" if "view s q = Some (F y)" "q \<noteq> T" for q y
    using v [of q] nf [of q y] that by auto
  show "(q = T \<and> y = x) \<or> view s q = Some (F y)" if "view s1 q = Some (F y)" for q y
    using v [of q] that by (auto split: if_splits)
qed

lemma capture_loop:
  assumes names: "valid_name cd" "valid_name wd" "valid_name pd" "valid_name od"
    and dist: "distinct [cd, wd, pd, od]"
  shows "for_each (output_working_file cp cd wd pd od time)
           (map (\<lambda>e. (path_of wd (fst e), snd e)) es) s = Inr s' \<Longrightarrow>
     inv_capture cd wd od b s \<Longrightarrow>
     \<forall>e \<in> set es. list_all valid_name (fst e @ [snd e]) \<and>
        (\<exists>w. view b (wd # fst e @ [snd e]) = Some (F w)) \<Longrightarrow>
     inv_capture cd wd od b s' \<and>
     (\<forall>e \<in> set es. view b (cd # fst e @ [snd e]) \<noteq> Some D) \<and>
     (\<forall>q x. view s' q = Some (F x) \<longrightarrow>
        view s q = Some (F x) \<or> (\<exists>e \<in> set es. artifact cp cd wd pd od time b e = Some (q, x))) \<and>
     (\<forall>e \<in> set es. \<forall>T x. artifact cp cd wd pd od time b e = Some (T, x) \<longrightarrow>
        view s' T = Some (F x)) \<and>
     (\<forall>q x. view s q = Some (F x) \<longrightarrow>
        (\<forall>e \<in> set es. \<forall>x'. artifact cp cd wd pd od time b e = Some (q, x') \<longrightarrow> x' = x) \<longrightarrow>
        view s' q = Some (F x))"
proof (induction es arbitrary: s)
  case Nil
  then show ?case by simp
next
  case (Cons e es)
  let ?art = "artifact cp cd wd pd od time b"
  have odpd: "od \<noteq> pd" using dist by auto
  from Cons.prems(1) obtain s1
    where st: "output_working_file cp cd wd pd od time (path_of wd (fst e), snd e) s = Inr s1"
      and rest: "for_each (output_working_file cp cd wd pd od time)
           (map (\<lambda>e. (path_of wd (fst e), snd e)) es) s1 = Inr s'"
    by (auto split: sum.splits)
  from Cons.prems(3) obtain w where R: "list_all valid_name (fst e @ [snd e])"
    and w: "view b (wd # fst e @ [snd e]) = Some (F w)"
    by auto
  from step_artifact [OF names dist Cons.prems(2) R w st]
  have inv1: "inv_capture cd wd od b s1"
    and nd: "view b (cd # fst e @ [snd e]) \<noteq> Some D"
    and art: "case ?art e of None \<Rightarrow> s1 = s
       | Some (T, x) \<Rightarrow> writes s s1 T (butlast T) x \<and>
           (T = od # fst e @ [snd e] \<or> T = pd # fst e @ [snd e @ ''.patch''])"
    by simp_all
  have es: "\<forall>e \<in> set es. list_all valid_name (fst e @ [snd e]) \<and>
        (\<exists>w. view b (wd # fst e @ [snd e]) = Some (F w))"
    using Cons.prems(3) by simp
  note IH = Cons.IH [OF rest inv1 es]
  from IH have I1: "inv_capture cd wd od b s'" by blast
  from IH nd have I5: "\<forall>e' \<in> set (e # es). view b (cd # fst e' @ [snd e']) \<noteq> Some D" by simp
  from IH have I2: "\<And>q x. view s' q = Some (F x) \<Longrightarrow>
        view s1 q = Some (F x) \<or> (\<exists>e \<in> set es. ?art e = Some (q, x))" by blast
  from IH have I3: "\<And>e T x. e \<in> set es \<Longrightarrow> ?art e = Some (T, x) \<Longrightarrow> view s' T = Some (F x)"
    by blast
  from IH have I4: "\<And>q x. view s1 q = Some (F x) \<Longrightarrow>
        (\<And>e x'. e \<in> set es \<Longrightarrow> ?art e = Some (q, x') \<Longrightarrow> x' = x) \<Longrightarrow>
        view s' q = Some (F x)" by blast
  \<comment> \<open>the step itself\<close>
  have S1: "view s1 T = Some (F x)" if "?art e = Some (T, x)" for T x
    using art that writes_facts(1) by fastforce
  have S2: "view s1 q = Some (F y)"
    if "view s q = Some (F y)" "\<And>x'. ?art e = Some (q, x') \<Longrightarrow> x' = y" for q y
  proof (cases "?art e")
    case None
    then show ?thesis using art that(1) by simp
  next
    case (Some a)
    obtain T x where a: "a = (T, x)" by (cases a)
    from art Some a have wr: "writes s s1 T (butlast T) x" by simp
    show ?thesis
    proof (cases "q = T")
      case True
      then have "x = y" using that(2) Some a by simp
      then show ?thesis using writes_facts(1) [OF wr] True by simp
    next
      case False
      then show ?thesis using writes_facts(2) [OF wr that(1)] by simp
    qed
  qed
  have S3: "view s q = Some (F y) \<or> ?art e = Some (q, y)" if "view s1 q = Some (F y)" for q y
  proof (cases "?art e")
    case None
    then show ?thesis using art that by simp
  next
    case (Some a)
    obtain T x where a: "a = (T, x)" by (cases a)
    from art Some a have wr: "writes s s1 T (butlast T) x" by simp
    from writes_facts(3) [OF wr that] Some a show ?thesis by auto
  qed
  have C2: "view s q = Some (F x) \<or> (\<exists>e' \<in> set (e # es). ?art e' = Some (q, x))"
    if "view s' q = Some (F x)" for q x
    using I2 [OF that] S3 [of q x] by auto
  have C3: "view s' T = Some (F x)" if "e' \<in> set (e # es)" "?art e' = Some (T, x)" for e' T x
  proof (cases "e' \<in> set es")
    case True
    then show ?thesis using I3 that(2) by blast
  next
    case False
    then have e': "e' = e" using that(1) by simp
    have "view s1 T = Some (F x)" using S1 that(2) e' by simp
    moreover have "x' = x" if "e'' \<in> set es" "?art e'' = Some (T, x')" for e'' x'
      using artifact_inj [OF \<open>?art e' = Some (T, x)\<close> that(2) odpd] \<open>?art e' = Some (T, x)\<close> that(2)
      by simp
    ultimately show ?thesis by (rule I4)
  qed
  have C4: "view s' q = Some (F x)"
    if "view s q = Some (F x)"
      "\<forall>e' \<in> set (e # es). \<forall>x'. ?art e' = Some (q, x') \<longrightarrow> x' = x" for q x
  proof -
    have "view s1 q = Some (F x)" using that by (intro S2) auto
    then show ?thesis using that(2) by (intro I4) auto
  qed
  from I1 I5 C2 C3 C4 show ?case by blast
qed

lemma map_ex:
  "(\<forall>x \<in> set xs. \<exists>y. x = g y \<and> P y) \<Longrightarrow> \<exists>ys. xs = map g ys \<and> (\<forall>y \<in> set ys. P y)"
proof (induction xs)
  case Nil
  then show ?case by simp
next
  case (Cons x xs)
  then obtain y ys where "x = g y" "P y" "xs = map g ys" "\<forall>y \<in> set ys. P y" by auto
  then have "x # xs = map g (y # ys) \<and> (\<forall>y \<in> set (y # ys). P y)" by simp
  then show ?case by (rule exI [of _ "y # ys"])
qed

lemma not_dir_below:
  assumes "valid_name d" "\<not> isdir s d"
  shows "view s (d # q) \<noteq> Some D" and "q \<noteq> [] \<Longrightarrow> view s (d # q) = None"
proof -
  have nd: "view s [d] \<noteq> Some D"
    using assms by (simp add: isdir_view resolve_valid)
  have below: "view s (d # q) = None" if "q \<noteq> []" for q
  proof (rule ccontr)
    assume "view s (d # q) \<noteq> None"
    then obtain y where "view s ([d] @ q) = Some y" by auto
    from view_prefix_dir [OF this that] nd show False by simp
  qed
  show "view s (d # q) \<noteq> Some D" using nd below [of q] by (cases "q = []") auto
  show "q \<noteq> [] \<Longrightarrow> view s (d # q) = None" by (rule below)
qed

lemma drop_dir_view_other: "x \<noteq> d \<Longrightarrow> view (drop_dir fs d) (x # q) = view fs (x # q)"
  by (simp add: view_def drop_dir_lookup_other)

text \<open>
  Capture on a well-formed tree, with the four directories named directly below the
  root by four different names (each a single component, so none ends with a slash).
  When \<open>output_working\<close> returns, then for every file that the walk of the working
  directory finds, at the relative path \<open>rel_path\<close>: if the clean directory has that
  path, it is a regular file there, the patch directory holds the diff of the two texts
  at \<open>rel_path.patch\<close> when the diff is not empty and no file at that path when it is
  empty, and the output directory holds no file at \<open>rel_path\<close>; if the clean
  directory does not have that path, the output directory holds the bytes of the
  working file at \<open>rel_path\<close>, and the patch directory holds no file at
  \<open>rel_path.patch\<close>.
\<close>

theorem capture_classifies:
  assumes wf: "wf_node fs"
    and names: "valid_name clean_dir" "valid_name working_dir" "valid_name patch_dir"
      "valid_name out_dir"
    and dist: "distinct [clean_dir, working_dir, patch_dir, out_dir]"
    and run: "output_working cp clean_dir working_dir patch_dir out_dir time fs = Inr fs'"
    and ent: "(subdir, file) \<in> set (walk_files fs working_dir)"
    and rel: "rel_path = drop (length working_dir + 1) (join subdir file)"
  shows "\<exists>w. read_bytes fs (join subdir file) = Inr w \<and>
     (if path_exists fs (join clean_dir rel_path)
      then \<exists>c. read_bytes fs (join clean_dir rel_path) = Inr c \<and>
         (if cp (universal_newlines c) (universal_newlines w) (as_posix rel_path) time \<noteq> []
          then read_bytes fs' (join patch_dir (rel_path @ ''.'' @ PATCH_EXTENSION)) =
                 Inr (cp (universal_newlines c) (universal_newlines w) (as_posix rel_path) time)
          else \<forall>x. read_bytes fs' (join patch_dir (rel_path @ ''.'' @ PATCH_EXTENSION)) \<noteq> Inr x) \<and>
         (\<forall>x. read_bytes fs' (join out_dir rel_path) \<noteq> Inr x)
      else read_bytes fs' (join out_dir rel_path) = Inr w \<and>
           (\<forall>x. read_bytes fs' (join patch_dir (rel_path @ ''.'' @ PATCH_EXTENSION)) \<noteq> Inr x))"
proof -
  let ?cd = clean_dir and ?wd = working_dir and ?pd = patch_dir and ?od = out_dir
  let ?b = "drop_dir (drop_dir fs ?od) ?pd"
  let ?g = "\<lambda>e. (path_of ?wd (fst e), snd e)"
  let ?art = "artifact cp ?cd ?wd ?pd ?od time ?b"
  have d: "?cd \<noteq> ?od" "?cd \<noteq> ?pd" "?wd \<noteq> ?od" "?wd \<noteq> ?pd" "?od \<noteq> ?pd" "?pd \<noteq> ?od"
    using dist by auto
  have keepw: "view ?b (?wd # q) = view fs (?wd # q)" for q
    using d by (simp add: drop_dir_view_other)
  have keepc: "view ?b (?cd # q) = view fs (?cd # q)" for q
    using d by (simp add: drop_dir_view_other)
  have keepl: "lookup ?b [?wd] = lookup fs [?wd]"
    using d by (simp add: drop_dir_lookup_other)
  have np: "\<not> isdir ?b ?pd" using names(3) by (rule drop_dir_not_dir)
  have "isdir ?b ?od = isdir (drop_dir fs ?od) ?od"
    using d(5) by (rule drop_dir_isdir_other [OF names(3) names(4)])
  then have no: "\<not> isdir ?b ?od"
    using drop_dir_not_dir [OF names(4), of fs] by simp
  have wk: "walk_files ?b ?wd = walk_files fs ?wd"
    using keepl names(2) by (rule walk_files_cong)
  \<comment> \<open>the entries of the walk, in components\<close>
  have "\<forall>x \<in> set (walk_files fs ?wd). \<exists>e. x = ?g e \<and>
      (list_all valid_name (fst e @ [snd e]) \<and> (\<exists>w. view ?b (?wd # fst e @ [snd e]) = Some (F w)))"
  proof
    fix x assume x: "x \<in> set (walk_files fs ?wd)"
    obtain sd f where sf: "x = (sd, f)" by (cases x)
    from walk_files_entry [OF wf names(2) x [unfolded sf]]
    obtain R c where "sd = path_of ?wd R" "list_all valid_name (R @ [f])"
        "lookup fs (?wd # R @ [f]) = Some (File c)"
      by blast
    then have "x = ?g (R, f) \<and> list_all valid_name (fst (R, f) @ [snd (R, f)]) \<and>
        (\<exists>w. view ?b (?wd # fst (R, f) @ [snd (R, f)]) = Some (F w))"
      using sf by (simp add: keepw view_F_iff)
    then show "\<exists>e. x = ?g e \<and>
      (list_all valid_name (fst e @ [snd e]) \<and> (\<exists>w. view ?b (?wd # fst e @ [snd e]) = Some (F w)))"
      by blast
  qed
  from map_ex [OF this] obtain es where es: "walk_files fs ?wd = map ?g es"
    and ok: "\<forall>e \<in> set es. list_all valid_name (fst e @ [snd e]) \<and>
        (\<exists>w. view ?b (?wd # fst e @ [snd e]) = Some (F w))"
    by blast
  from ent es obtain e0 where e0: "e0 \<in> set es" and sd: "subdir = path_of ?wd (fst e0)"
    and fl: "file = snd e0"
    by auto
  define R where "R = fst e0"
  from ok e0 obtain w where vR: "list_all valid_name (R @ [file])"
    and w: "view ?b (?wd # R @ [file]) = Some (F w)"
    unfolding R_def fl by blast
  note ec = entry_paths [OF names(2) vR names(1)]
  note ep = entry_paths [OF names(2) vR names(3)]
  note eo = entry_paths [OF names(2) vR names(4)]
  have relp: "rel_path = rel_of (R @ [file])"
    unfolding rel sd R_def [symmetric] by (rule ec(3))
  \<comment> \<open>the loop\<close>
  have inv0: "inv_capture ?cd ?wd ?od ?b ?b"
    using not_dir_below(1) [OF names(4) no] by (simp add: inv_capture_def)
  have loop: "for_each (output_working_file cp ?cd ?wd ?pd ?od time) (map ?g es) ?b = Inr fs'"
    using run unfolding output_working_unfold [OF names(3) names(4)] wk es .
  from capture_loop [OF names dist loop inv0 ok]
  have L5: "\<And>e. e \<in> set es \<Longrightarrow> view ?b (?cd # fst e @ [snd e]) \<noteq> Some D"
    and L2: "\<And>q x. view fs' q = Some (F x) \<Longrightarrow>
        view ?b q = Some (F x) \<or> (\<exists>e \<in> set es. ?art e = Some (q, x))"
    and L3: "\<And>e T x. e \<in> set es \<Longrightarrow> ?art e = Some (T, x) \<Longrightarrow> view fs' T = Some (F x)"
    by blast+
  have e0eq: "e0 = (R, file)" by (simp add: R_def fl)
  \<comment> \<open>a file at the patch path of the entry is the artifact of the entry\<close>
  have only: "?art e0 = Some (?pd # R @ [file @ ''.patch''], x)"
    if "view fs' (?pd # R @ [file @ ''.patch'']) = Some (F x)" for x
  proof -
    have "view ?b (?pd # R @ [file @ ''.patch'']) = None"
      using not_dir_below(2) [OF names(3) np] by simp
    with L2 [OF that] obtain e where e: "e \<in> set es"
      and a: "?art e = Some (?pd # R @ [file @ ''.patch''], x)" by auto
    from artifact_target [OF a] d have "fst e = R \<and> snd e = file" by auto
    then have "e = e0" using e0eq by (simp add: prod_eq_iff)
    with a show ?thesis by simp
  qed
  have only_out: "?art e0 = Some (?od # R @ [file], x)"
    if "view fs' (?od # R @ [file]) = Some (F x)" for x
  proof -
    have "view ?b (?od # R @ [file]) = None"
      using not_dir_below(2) [OF names(4) no] by simp
    with L2 [OF that] obtain e where e: "e \<in> set es"
      and a: "?art e = Some (?od # R @ [file], x)" by auto
    from artifact_target [OF a] d have "fst e = R \<and> snd e = file" by auto
    then have "e = e0" using e0eq by (simp add: prod_eq_iff)
    with a show ?thesis by simp
  qed
  have rb: "read_bytes fs (join subdir file) = Inr w"
    using w unfolding sd R_def [symmetric] by (simp add: read_bytes_view ec(2) keepw)
  have pe: "path_exists fs (join ?cd rel_path) \<longleftrightarrow> view ?b (?cd # R @ [file]) \<noteq> None"
    unfolding relp by (simp add: path_exists_view ec(5) keepc)
  define PP where "PP = join ?pd (rel_path @ ''.'' @ PATCH_EXTENSION)"
  have rp: "read_bytes fs' PP = Inr x \<longleftrightarrow>
      view fs' (?pd # R @ [file @ ''.patch'']) = Some (F x)" for x
    unfolding PP_def relp by (simp only: read_bytes_view ep(9)) simp
  have ro: "read_bytes fs' (join ?od rel_path) = Inr x \<longleftrightarrow>
      view fs' (?od # R @ [file]) = Some (F x)" for x
    unfolding relp by (simp only: read_bytes_view eo(5)) simp
  show ?thesis
  proof (cases "view ?b (?cd # R @ [file])")
    case None
    then have a: "?art e0 = Some (?od # R @ [file], w)"
      using w by (simp add: artifact_def e0eq)
    from L3 [OF e0 a] have "view fs' (?od # R @ [file]) = Some (F w)" .
    moreover have "view fs' (?pd # R @ [file @ ''.patch'']) \<noteq> Some (F x)" for x
      using only [of x] a d by auto
    ultimately show ?thesis unfolding PP_def [symmetric] using rb pe None by (simp add: rp ro)
  next
    case (Some k)
    with L5 [OF e0] obtain c where c: "view ?b (?cd # R @ [file]) = Some (F c)"
      unfolding e0eq by (cases k) auto
    then have rc: "read_bytes fs (join ?cd rel_path) = Inr c"
      unfolding relp by (simp add: read_bytes_view ec(5) keepc)
    let ?d = "cp (universal_newlines c) (universal_newlines w) (as_posix rel_path) time"
    show ?thesis
    proof (cases "?d = []")
      case True
      then have a: "?art e0 = None"
        using w c by (simp add: artifact_def e0eq relp)
      have "view fs' (?pd # R @ [file @ ''.patch'']) \<noteq> Some (F x)" for x
        using only [of x] a by auto
      moreover have "view fs' (?od # R @ [file]) \<noteq> Some (F x)" for x
        using only_out [of x] a by auto
      ultimately show ?thesis unfolding PP_def [symmetric] using rb pe c rc True
        by (simp add: rp ro)
    next
      case False
      then have a: "?art e0 = Some (?pd # R @ [file @ ''.patch''], ?d)"
        using w c by (simp add: artifact_def e0eq relp Let_def)
      from L3 [OF e0 a] have "view fs' (?pd # R @ [file @ ''.patch'']) = Some (F ?d)" .
      moreover have "view fs' (?od # R @ [file]) \<noteq> Some (F x)" for x
        using only_out [of x] a d by auto
      ultimately show ?thesis unfolding PP_def [symmetric] using rb pe c rc False
        by (simp add: rp ro)
    qed
  qed
qed

theorem capture_classifies_witness:
  "output_working (\<lambda>a b f t. if a = b then [] else f @ t @ b)
     ''_clean'' ''_src'' ''_patches'' ''_out'' ''@now''
     (Dir [(''_clean'', Dir [(''a.txt'', File ''hello''), (''sub'', Dir [(''b.txt'', File ''x'')])]),
           (''_src'', Dir [(''a.txt'', File ''hello world''),
                          (''sub'', Dir [(''b.txt'', File ''x''), (''n.txt'', File ''new'')])])])
   = Inr (Dir [(''_clean'', Dir [(''a.txt'', File ''hello''), (''sub'', Dir [(''b.txt'', File ''x'')])]),
               (''_src'', Dir [(''a.txt'', File ''hello world''),
                              (''sub'', Dir [(''b.txt'', File ''x''), (''n.txt'', File ''new'')])]),
               (''_patches'', Dir [(''a.txt.patch'', File ''a.txt@nowhello world'')]),
               (''_out'', Dir [(''sub'', Dir [(''n.txt'', File ''new'')])])]) \<and>
   read_bytes (Dir [(''_clean'', Dir [(''a.txt'', File ''hello''), (''sub'', Dir [(''b.txt'', File ''x'')])]),
               (''_src'', Dir [(''a.txt'', File ''hello world''),
                              (''sub'', Dir [(''b.txt'', File ''x''), (''n.txt'', File ''new'')])]),
               (''_patches'', Dir [(''a.txt.patch'', File ''a.txt@nowhello world'')]),
               (''_out'', Dir [(''sub'', Dir [(''n.txt'', File ''new'')])])])
     (join ''_patches'' (''a.txt'' @ ''.'' @ PATCH_EXTENSION)) = Inr ''a.txt@nowhello world'' \<and>
   (\<forall>x. read_bytes (Dir [(''_clean'', Dir [(''a.txt'', File ''hello''), (''sub'', Dir [(''b.txt'', File ''x'')])]),
               (''_src'', Dir [(''a.txt'', File ''hello world''),
                              (''sub'', Dir [(''b.txt'', File ''x''), (''n.txt'', File ''new'')])]),
               (''_patches'', Dir [(''a.txt.patch'', File ''a.txt@nowhello world'')]),
               (''_out'', Dir [(''sub'', Dir [(''n.txt'', File ''new'')])])])
     (join ''_patches'' (''sub/b.txt'' @ ''.'' @ PATCH_EXTENSION)) \<noteq> Inr x) \<and>
   read_bytes (Dir [(''_clean'', Dir [(''a.txt'', File ''hello''), (''sub'', Dir [(''b.txt'', File ''x'')])]),
               (''_src'', Dir [(''a.txt'', File ''hello world''),
                              (''sub'', Dir [(''b.txt'', File ''x''), (''n.txt'', File ''new'')])]),
               (''_patches'', Dir [(''a.txt.patch'', File ''a.txt@nowhello world'')]),
               (''_out'', Dir [(''sub'', Dir [(''n.txt'', File ''new'')])])])
     (join ''_out'' ''sub/n.txt'') = Inr ''new''"
proof -
  let ?cl = "Dir [(''a.txt'', File ''hello''), (''sub'', Dir [(''b.txt'', File ''x'')])]"
  let ?sr = "Dir [(''a.txt'', File ''hello world''),
                  (''sub'', Dir [(''b.txt'', File ''x''), (''n.txt'', File ''new'')])]"
  let ?fs = "Dir [(''_clean'', ?cl), (''_src'', ?sr)]"
  let ?fs' = "Dir [(''_clean'', ?cl), (''_src'', ?sr),
               (''_patches'', Dir [(''a.txt.patch'', File ''a.txt@nowhello world'')]),
               (''_out'', Dir [(''sub'', Dir [(''n.txt'', File ''new'')])])]"
  let ?cp = "\<lambda>a b f t. if a = b then [] else f @ t @ b"
  have wf: "wf_node ?fs" by (simp add: valid_name_def)
  have n: "valid_name ''_clean''" "valid_name ''_src''" "valid_name ''_patches''" "valid_name ''_out''"
    by (simp_all add: valid_name_def)
  have d: "distinct [''_clean'', ''_src'', ''_patches'', ''_out'']" by simp
  have run: "output_working ?cp ''_clean'' ''_src'' ''_patches'' ''_out'' ''@now'' ?fs = Inr ?fs'"
    by code_simp
  have e1: "(''_src'', ''a.txt'') \<in> set (walk_files ?fs ''_src'')" by code_simp
  have e2: "(''_src/sub'', ''b.txt'') \<in> set (walk_files ?fs ''_src'')" by code_simp
  have e3: "(''_src/sub'', ''n.txt'') \<in> set (walk_files ?fs ''_src'')" by code_simp
  have r1: "''a.txt'' = drop (length ''_src'' + 1) (join ''_src'' ''a.txt'')" by code_simp
  have r2: "''sub/b.txt'' = drop (length ''_src'' + 1) (join ''_src/sub'' ''b.txt'')" by code_simp
  have r3: "''sub/n.txt'' = drop (length ''_src'' + 1) (join ''_src/sub'' ''n.txt'')" by code_simp
  note t1 = capture_classifies [where cp = ?cp, OF wf n d run e1 r1]
  note t2 = capture_classifies [where cp = ?cp, OF wf n d run e2 r2]
  note t3 = capture_classifies [where cp = ?cp, OF wf n d run e3 r3]
  have a1: "read_bytes ?fs (join ''_src'' ''a.txt'') = Inr ''hello world''" by code_simp
  have a2: "read_bytes ?fs (join ''_src/sub'' ''b.txt'') = Inr ''x''" by code_simp
  have a3: "read_bytes ?fs (join ''_src/sub'' ''n.txt'') = Inr ''new''" by code_simp
  have b1: "path_exists ?fs (join ''_clean'' ''a.txt'')" by code_simp
  have b2: "path_exists ?fs (join ''_clean'' ''sub/b.txt'')" by code_simp
  have b3: "\<not> path_exists ?fs (join ''_clean'' ''sub/n.txt'')" by code_simp
  have c1: "read_bytes ?fs (join ''_clean'' ''a.txt'') = Inr ''hello''" by code_simp
  have c2: "read_bytes ?fs (join ''_clean'' ''sub/b.txt'') = Inr ''x''" by code_simp
  have p1: "as_posix ''a.txt'' = ''a.txt''" by code_simp
  from t1 have g1: "read_bytes ?fs' (join ''_patches'' (''a.txt'' @ ''.'' @ PATCH_EXTENSION)) =
      Inr ''a.txt@nowhello world''"
    unfolding a1 c1 by (simp add: b1 p1)
  from t2 have g2: "\<forall>x. read_bytes ?fs' (join ''_patches'' (''sub/b.txt'' @ ''.'' @ PATCH_EXTENSION)) \<noteq> Inr x"
    unfolding a2 c2 by (simp add: b2)
  from t3 have g3: "read_bytes ?fs' (join ''_out'' ''sub/n.txt'') = Inr ''new''"
    unfolding a3 by (simp add: b3)
  from run g1 g2 g3 show ?thesis by blast
qed

text \<open>
  C2, for a working directory given with a slash at its end. The walk of \<open>_src/\<close>
  lists the file \<open>a.txt\<close>, \<open>os.path.join\<close> adds no second slash, and the slice
  \<open>work_path[(len(working_dir) + 1):]\<close> of \<open>output_working\<close> cuts one character too
  many: the relative path is \<open>.txt\<close>. The file \<open>a.txt\<close> is in the clean directory
  with another content; yet capture, whatever \<open>create_patch\<close> is, returns with no patch
  for it (there is no patch directory at all) and with its bytes copied to \<open>_out/.txt\<close>.
\<close>

theorem capture_trailing_separator:
  "walk_files
     (Dir [(''_clean'', Dir [(''a.txt'', File ''hello'')]),
           (''_src'', Dir [(''a.txt'', File ''hello world'')])]) ''_src/''
   = [(''_src/'', ''a.txt'')] \<and>
   join ''_src/'' ''a.txt'' = ''_src/a.txt'' \<and>
   drop (length ''_src/'' + 1) (join ''_src/'' ''a.txt'') = ''.txt'' \<and>
   read_bytes
     (Dir [(''_clean'', Dir [(''a.txt'', File ''hello'')]),
           (''_src'', Dir [(''a.txt'', File ''hello world'')])]) ''_clean/a.txt''
   = Inr ''hello'' \<and>
   output_working cp ''_clean'' ''_src/'' ''_patches'' ''_out'' time
     (Dir [(''_clean'', Dir [(''a.txt'', File ''hello'')]),
           (''_src'', Dir [(''a.txt'', File ''hello world'')])])
   = Inr (Dir [(''_clean'', Dir [(''a.txt'', File ''hello'')]),
               (''_src'', Dir [(''a.txt'', File ''hello world'')]),
               (''_out'', Dir [(''.txt'', File ''hello world'')])]) \<and>
   read_bytes
     (Dir [(''_clean'', Dir [(''a.txt'', File ''hello'')]),
           (''_src'', Dir [(''a.txt'', File ''hello world'')]),
           (''_out'', Dir [(''.txt'', File ''hello world'')])]) ''_patches/a.txt.patch''
   = Inl FileNotFoundError"
  by code_simp

lemma update_fresh: "k \<notin> fst ` set al \<Longrightarrow> AList.update k v al = al @ [(k, v)]"
  by (induction al) auto

lemma copy_entries_fresh:
  "wf_node (Dir ses) \<Longrightarrow> fst ` set ses \<inter> fst ` set des = {} \<Longrightarrow>
   copy_entries ses des = Inr (des @ ses)"
proof (induction ses des rule: copy_entries.induct)
  case (1 des)
  then show ?case by simp
next
  case (2 name c ses des)
  have fresh: "name \<notin> fst ` set des" using 2(3) by auto
  then have m: "map_of des name = None" by (simp add: map_of_eq_None_iff)
  have c2: "copy2 name c des = Inr (des @ [(name, File c)])"
    using m by (simp add: copy2_def update_fresh [OF fresh])
  have wf: "wf_node (Dir ses)" using 2(2) by simp
  have dj: "fst ` set ses \<inter> fst ` set (des @ [(name, File c)]) = {}"
    using 2(2) 2(3) by auto
  from 2(1) [OF c2 wf dj] show ?case
    using c2 by simp
next
  case (3 name sub ses des)
  have fresh: "name \<notin> fst ` set des" using 3(4) by auto
  then have m: "map_of des name = None" by (simp add: map_of_eq_None_iff)
  have de: "dest_entries des name = Inr []" using m by (simp add: dest_entries_def)
  have wfsub: "wf_node (Dir sub)" and wf: "wf_node (Dir ses)" using 3(3) by simp_all
  have c1: "copy_entries sub [] = Inr sub"
    using 3(1) [OF de wfsub] by simp
  have dj: "fst ` set ses \<inter> fst ` set (AList.update name (Dir sub) des) = {}"
    using 3(3) 3(4) by (auto simp: update_fresh [OF fresh])
  from 3(2) [OF de c1 wf dj] show ?case
    using de c1 by (simp add: update_fresh [OF fresh])
qed

lemma copy_entries_frame:
  "copy_entries ses des = Inr res \<Longrightarrow> x \<notin> fst ` set ses \<Longrightarrow> map_of res x = map_of des x"
proof (induction ses des arbitrary: res rule: copy_entries.induct)
  case (1 des)
  then show ?case by simp
next
  case (2 name c ses des)
  from 2(2) obtain des' where c2: "copy2 name c des = Inr des'"
    and r: "copy_entries ses des' = Inr res"
    by (auto split: sum.splits)
  have "map_of des' x = map_of des x"
    using c2 2(3) by (auto simp: copy2_def update_conv' split: option.splits node.splits)
  with 2(1) [OF c2 r] 2(3) show ?case by simp
next
  case (3 name sub ses des)
  from 3(3) obtain d d' where de: "dest_entries des name = Inr d"
    and c1: "copy_entries sub d = Inr d'"
    and r: "copy_entries ses (AList.update name (Dir d') des) = Inr res"
    by (auto split: sum.splits)
  from 3(2) [OF de c1 r] 3(4) show ?case by (simp add: update_conv')
qed

text \<open>Output wins: a file of the source replaces what is not a directory.\<close>

lemma copy_entries_file:
  "copy_entries ses des = Inr res \<Longrightarrow> wf_node (Dir ses) \<Longrightarrow>
   lookup (Dir ses) R = Some (File c) \<Longrightarrow> (\<forall>d. lookup (Dir des) R \<noteq> Some (Dir d)) \<Longrightarrow>
   lookup (Dir res) R = Some (File c)"
proof (induction ses des arbitrary: res R rule: copy_entries.induct)
  case (1 des)
  then show ?case by (cases R) auto
next
  case (2 name c0 ses des)
  from 2(2) obtain des' where c2: "copy2 name c0 des = Inr des'"
    and r: "copy_entries ses des' = Inr res"
    by (auto split: sum.splits)
  have wf: "wf_node (Dir ses)" and fresh: "name \<notin> fst ` set ses" using 2(3) by auto
  obtain x R' where R: "R = x # R'" using 2(4) by (cases R) auto
  show ?case
  proof (cases "x = name")
    case True
    with 2(4) R have R': "R' = []" and cc: "c = c0" by (cases R'; simp)+
    have "map_of des name \<noteq> Some (Dir d)" for d using 2(5) R True R' by auto
    then have "map_of des' name = Some (File c0)"
      using c2 by (auto simp: copy2_def update_conv' split: option.splits node.splits)
    then have "map_of res name = Some (File c0)"
      using copy_entries_frame [OF r fresh] by simp
    then show ?thesis using R True R' cc by simp
  next
    case False
    have l: "lookup (Dir ses) R = Some (File c)" using 2(4) R False by simp
    have "map_of des' x = map_of des x"
      using c2 False by (auto simp: copy2_def update_conv' split: option.splits node.splits)
    then have nd: "\<forall>d. lookup (Dir des') R \<noteq> Some (Dir d)" using 2(5) R by simp
    from 2(1) [OF c2 r wf l nd] show ?thesis .
  qed
next
  case (3 name sub ses des)
  from 3(3) obtain d d' where de: "dest_entries des name = Inr d"
    and c1: "copy_entries sub d = Inr d'"
    and r: "copy_entries ses (AList.update name (Dir d') des) = Inr res"
    by (auto split: sum.splits)
  have wf: "wf_node (Dir ses)" and wfsub: "wf_node (Dir sub)"
    and fresh: "name \<notin> fst ` set ses" using 3(4) by auto
  obtain x R' where R: "R = x # R'" using 3(5) by (cases R) auto
  show ?case
  proof (cases "x = name")
    case True
    have l: "lookup (Dir sub) R' = Some (File c)" using 3(5) R True by simp
    then have ne: "R' \<noteq> []" by auto
    have nd: "\<forall>dd. lookup (Dir d) R' \<noteq> Some (Dir dd)"
    proof (cases "map_of des name")
      case None
      then have "d = []" using de by (simp add: dest_entries_def)
      then show ?thesis using ne by (cases R') auto
    next
      case (Some n)
      then have "n = Dir d" using de by (cases n) (auto simp: dest_entries_def)
      then show ?thesis using 3(6) R True Some by simp
    qed
    from 3(1) [OF de c1 wfsub l nd] have "lookup (Dir d') R' = Some (File c)" .
    moreover have "map_of res name = Some (Dir d')"
      using copy_entries_frame [OF r fresh] by (simp add: update_conv')
    ultimately show ?thesis using R True by simp
  next
    case False
    have l: "lookup (Dir ses) R = Some (File c)" using 3(5) R False by simp
    have nd: "\<forall>dd. lookup (Dir (AList.update name (Dir d') des)) R \<noteq> Some (Dir dd)"
      using 3(6) R False by (simp add: update_conv')
    from 3(2) [OF de c1 r wf l nd] show ?thesis .
  qed
qed

lemma lookup_update_top:
  "lookup (Dir (AList.update x n es)) (y # q) = (if y = x then lookup n q else lookup (Dir es) (y # q))"
  by (simp add: update_conv')

lemma drop_dir_lookup:
  "valid_name d \<Longrightarrow>
   lookup (drop_dir s d) (y # q) = (if y = d \<and> isdir s d then None else lookup s (y # q))"
  by (simp add: drop_dir_def remove_top_lookup)

lemma makedirs_top:
  assumes "valid_name d" "makedirs s d ok = Inr s2"
  shows "\<exists>x. (lookup s [d] = None \<and> x = [] \<or> lookup s [d] = Some (Dir x)) \<and>
     (\<not> ok \<longrightarrow> lookup s [d] = None) \<and>
     (\<forall>y q. lookup s2 (y # q) = (if y = d then lookup (Dir x) q else lookup s (y # q)))"
proof -
  from assms have m: "mkdirs s [d] = Some s2"
    and ex: "\<not> ok \<longrightarrow> lookup s [d] = None"
    by (auto simp: makedirs_def resolve_valid split: if_splits option.splits)
  from m obtain es where s: "s = Dir es" by (cases s) auto
  let ?n = "case map_of es d of None \<Rightarrow> Dir [] | Some n \<Rightarrow> n"
  from m s obtain x where n: "?n = Dir x" and s2: "s2 = Dir (AList.update d (Dir x) es)"
    by (cases ?n) (auto split: option.splits)
  have "lookup s [d] = None \<and> x = [] \<or> lookup s [d] = Some (Dir x)"
    using n s by (cases "map_of es d") auto
  moreover have "\<forall>y q. lookup s2 (y # q) = (if y = d then lookup (Dir x) q else lookup s (y # q))"
    unfolding s s2 by (simp add: update_conv')
  ultimately show ?thesis using ex by blast
qed

lemma copytree_top:
  assumes "valid_name src" "valid_name dst" "copytree s src dst = Inr s3"
  shows "\<exists>ses x res. lookup s [src] = Some (Dir ses) \<and>
     (lookup s [dst] = None \<and> x = [] \<or> lookup s [dst] = Some (Dir x)) \<and>
     copy_entries ses x = Inr res \<and>
     (\<forall>y q. lookup s3 (y # q) = (if y = dst then lookup (Dir res) q else lookup s (y # q)))"
proof -
  from assms obtain ses where ses: "lookup s [src] = Some (Dir ses)"
    by (auto simp: copytree_def resolve_valid split: option.splits node.splits)
  from assms ses obtain s1 where m: "makedirs s dst True = Inr s1"
    by (auto simp: copytree_def resolve_valid split: sum.splits)
  from makedirs_top [OF assms(2) m] obtain x
    where x: "lookup s [dst] = None \<and> x = [] \<or> lookup s [dst] = Some (Dir x)"
      and l1: "\<And>y q. lookup s1 (y # q) = (if y = dst then lookup (Dir x) q else lookup s (y # q))"
    by blast
  have d1: "lookup s1 [dst] = Some (Dir x)" using l1 [of dst "[]"] by simp
  from assms ses m d1 obtain res where c: "copy_entries ses x = Inr res"
    and p: "put s1 [dst] (Dir res) = Some s3"
    by (auto simp: copytree_def resolve_valid split: sum.splits option.splits)
  from p obtain es1 where s1: "s1 = Dir es1" by (cases s1) auto
  with p have s3: "s3 = Dir (AList.update dst (Dir res) es1)" by simp
  have "lookup s3 (y # q) = (if y = dst then lookup (Dir res) q else lookup s (y # q))" for y q
    using l1 [of y q] unfolding s3 s1 by (simp add: update_conv')
  with ses x c show ?thesis by blast
qed

lemma isdir_cong: "valid_name d \<Longrightarrow> lookup s [d] = lookup s' [d] \<Longrightarrow> isdir s d = isdir s' d"
  by (simp add: isdir_valid)

lemma exists_isdir: "(path_exists s d \<and> isdir s d) = isdir s d"
  by (auto simp: path_exists_def isdir_def split: option.splits)

lemma rmtree_top':
  "valid_name d \<Longrightarrow> (if isdir fs d then rmtree fs d else Inr fs) = Inr (drop_dir fs d)"
  using rmtree_top [of d fs] by (simp add: exists_isdir)

lemma setup_working_layers:
  assumes wf: "wf_node fs"
    and names: "valid_name cd" "valid_name wd" "valid_name pd" "valid_name od"
    and dist: "distinct [cd, wd, pd, od]"
    and run: "setup_working ap cd wd pd od fs = Inr fs'"
  shows "\<exists>mid ses. lookup fs [cd] = Some (Dir ses) \<and>
     (if isdir fs pd then apply_patches ap wd pd mid = Inr fs' else fs' = mid) \<and>
     (\<forall>y q. y \<noteq> wd \<longrightarrow> lookup mid (y # q) = lookup fs (y # q)) \<and>
     (if isdir fs od
      then \<exists>oes res. lookup fs [od] = Some (Dir oes) \<and> copy_entries oes ses = Inr res \<and>
             lookup mid [wd] = Some (Dir res)
      else lookup mid [wd] = Some (Dir ses))"
proof -
  have d: "cd \<noteq> wd" "od \<noteq> wd" "pd \<noteq> wd" using dist by auto
  let ?s1 = "drop_dir fs wd"
  from run obtain s2 s3 s4 where m: "makedirs ?s1 wd False = Inr s2"
    and c3: "copytree s2 cd wd = Inr s3"
    and c4: "(if isdir s3 od then copytree s3 od wd else Inr s3) = Inr s4"
    and p5: "(if isdir s4 pd then apply_patches ap wd pd s4 else Inr s4) = Inr fs'"
    unfolding setup_working_def exists_isdir rmtree_top' [OF names(2)]
    by (auto split: sum.splits)
  \<comment> \<open>the working directory, recreated empty\<close>
  from makedirs_top [OF names(2) m] obtain x
    where x: "lookup ?s1 [wd] = None \<and> x = [] \<or> lookup ?s1 [wd] = Some (Dir x)"
      and x0: "lookup ?s1 [wd] = None"
      and l2: "\<And>y q. lookup s2 (y # q) = (if y = wd then lookup (Dir x) q else lookup ?s1 (y # q))"
    by auto
  from x x0 have xe: "x = []" by auto
  have k2: "lookup s2 (y # q) = lookup fs (y # q)" if "y \<noteq> wd" for y q
    using l2 [of y q] that by (simp add: drop_dir_lookup [OF names(2)])
  have w2: "lookup s2 [wd] = Some (Dir [])" using l2 [of wd "[]"] xe by simp
  \<comment> \<open>the clean directory copied into it\<close>
  from copytree_top [OF names(1) names(2) c3] obtain ses x3 res3
    where ses2: "lookup s2 [cd] = Some (Dir ses)"
      and x3: "lookup s2 [wd] = None \<and> x3 = [] \<or> lookup s2 [wd] = Some (Dir x3)"
      and ce3: "copy_entries ses x3 = Inr res3"
      and l3: "\<And>y q. lookup s3 (y # q) = (if y = wd then lookup (Dir res3) q else lookup s2 (y # q))"
    by blast
  have ses: "lookup fs [cd] = Some (Dir ses)" using ses2 k2 [OF d(1)] by simp
  have wfses: "wf_node (Dir ses)" using wf_lookup [OF wf ses] .
  from x3 w2 have "x3 = []" by auto
  with ce3 copy_entries_fresh [OF wfses, of "[]"] have r3: "res3 = ses" by simp
  have k3: "lookup s3 (y # q) = lookup fs (y # q)" if "y \<noteq> wd" for y q
    using l3 [of y q] k2 [OF that] that by simp
  have w3: "lookup s3 [wd] = Some (Dir ses)" using l3 [of wd "[]"] r3 by simp
  \<comment> \<open>the output directory copied over it\<close>
  have io: "isdir s3 od = isdir fs od"
    using names(4) k3 [OF d(2)] by (rule isdir_cong)
  have k4: "lookup s4 (y # q) = lookup fs (y # q)" if "y \<noteq> wd" for y q
  proof (cases "isdir fs od")
    case True
    with c4 io have c: "copytree s3 od wd = Inr s4" by simp
    from copytree_top [OF names(4) names(2) c] that k3 [OF that] show ?thesis by auto
  next
    case False
    with c4 io have "s4 = s3" by simp
    then show ?thesis using k3 [OF that] by simp
  qed
  have w4: "if isdir fs od
      then \<exists>oes res. lookup fs [od] = Some (Dir oes) \<and> copy_entries oes ses = Inr res \<and>
             lookup s4 [wd] = Some (Dir res)
      else lookup s4 [wd] = Some (Dir ses)"
  proof (cases "isdir fs od")
    case True
    with c4 io have c: "copytree s3 od wd = Inr s4" by simp
    from copytree_top [OF names(4) names(2) c] obtain oes x4 res
      where oes: "lookup s3 [od] = Some (Dir oes)"
        and x4: "lookup s3 [wd] = None \<and> x4 = [] \<or> lookup s3 [wd] = Some (Dir x4)"
        and ce: "copy_entries oes x4 = Inr res"
        and l4: "\<And>y q. lookup s4 (y # q) = (if y = wd then lookup (Dir res) q else lookup s3 (y # q))"
      by blast
    from x4 w3 have "x4 = ses" by auto
    moreover have "lookup fs [od] = Some (Dir oes)" using oes k3 [OF d(2)] by simp
    moreover have "lookup s4 [wd] = Some (Dir res)" using l4 [of wd "[]"] by simp
    ultimately show ?thesis using True ce by auto
  next
    case False
    with c4 io have "s4 = s3" by simp
    then show ?thesis using False w3 by simp
  qed
  have ip: "isdir s4 pd = isdir fs pd"
    using names(3) k4 [OF d(3)] by (rule isdir_cong)
  have "if isdir fs pd then apply_patches ap wd pd s4 = Inr fs' else fs' = s4"
    using p5 ip by (auto split: if_splits)
  with ses k4 w4 show ?thesis by blast
qed

lemma resolve_under:
  assumes "valid_name wd" "rel = [] \<or> hd rel \<noteq> CHR ''/''" "resolve (join wd rel) = Some t"
  shows "\<exists>q. t = wd # q"
proof -
  have j: "join wd rel = wd @ CHR ''/'' # rel"
    using assms(1,2) by (simp add: join_open_end valid_open_end)
  have "split_on CHR ''/'' (wd @ CHR ''/'' # rel) = wd # split_on CHR ''/'' rel"
    using assms(1) by (intro split_on_append) (simp add: valid_name_def)
  then show ?thesis using assms(1,3) unfolding j
    by (auto simp: resolve_def Let_def valid_name_def split: if_splits)
qed

lemma target_under:
  assumes "valid_name wd" "valid_name pd" "list_all valid_name (R @ [f])"
    and "resolve (target wd pd (path_of pd R, f)) = Some t"
  shows "\<exists>q. t = wd # q"
proof -
  obtain n R' where n: "R @ [f] = n # R'" by (cases "R @ [f]") auto
  have vn: "valid_name n" using assms(3) unfolding n by simp
  have p: "join (path_of pd R) f = pd @ CHR ''/'' # rel_of (R @ [f])"
    using entry_paths(1) [OF assms(2) assms(3) assms(1)]
    by (simp add: n path_of_Cons' rel_of_Cons)
  have "patch_rel_path pd (join (path_of pd R) f) =
      take (length (join (path_of pd R) f) - (length PATCH_EXTENSION + 1) - (length pd + 1))
        (rel_of (R @ [f]))"
    unfolding patch_rel_path_def drop_take by (simp add: p)
  then obtain k where k: "patch_rel_path pd (join (path_of pd R) f) = take k (rel_of (R @ [f]))"
    by blast
  have "take k (rel_of (R @ [f])) = [] \<or> hd (take k (rel_of (R @ [f]))) \<noteq> CHR ''/''"
    using hd_rel_of [OF vn, of R'] unfolding n by (cases k; cases "rel_of (n # R')") auto
  then show ?thesis
    using assms(4) unfolding target_def fst_conv snd_conv k
    by (intro resolve_under [OF assms(1)]) auto
qed

text \<open>
  \<open>setup_working\<close> on a well-formed tree, with the four directories named directly
  below the root by four different names (each a single component, so none ends with a
  slash). When it returns, the clean
  directory is a directory, and there is the state \<open>mid\<close> in which the patches are
  applied: outside the working directory it is the state before the call; its working
  directory is what \<open>copytree\<close> makes of the output directory copied over a copy of
  the clean directory, or that copy itself when there is no output directory (whatever
  the working directory held before is gone); a path that is a file in both the clean
  and the output directory holds the output content there. The result is
  \<open>apply_patches\<close> of \<open>mid\<close> when the patch directory exists and \<open>mid\<close> otherwise.
  A file that is the work file of no patch is unchanged by the patches, and the work
  file of exactly one patch holds what \<open>apply_patch\<close> returns for its content in
  \<open>mid\<close> and the text of that patch.
\<close>

theorem setup_working_layers_order:
  assumes wf: "wf_node fs"
    and names: "valid_name clean_dir" "valid_name working_dir" "valid_name patch_dir"
      "valid_name out_dir"
    and dist: "distinct [clean_dir, working_dir, patch_dir, out_dir]"
    and run: "setup_working ap clean_dir working_dir patch_dir out_dir fs = Inr fs'"
  shows "\<exists>mid ses.
     lookup fs [clean_dir] = Some (Dir ses) \<and>
     (\<forall>y q. y \<noteq> working_dir \<longrightarrow> lookup mid (y # q) = lookup fs (y # q)) \<and>
     (if isdir fs out_dir
      then \<exists>oes res. lookup fs [out_dir] = Some (Dir oes) \<and> copy_entries oes ses = Inr res \<and>
             lookup mid [working_dir] = Some (Dir res)
      else lookup mid [working_dir] = Some (Dir ses)) \<and>
     (\<forall>R oc c. isdir fs out_dir \<and> lookup fs (out_dir # R) = Some (File oc) \<and>
        lookup fs (clean_dir # R) = Some (File c) \<longrightarrow>
        lookup mid (working_dir # R) = Some (File oc)) \<and>
     (if isdir fs patch_dir then apply_patches ap working_dir patch_dir mid = Inr fs'
      else fs' = mid) \<and>
     (\<forall>q c. (\<forall>e \<in> set (walk_files fs patch_dir).
                resolve (target working_dir patch_dir e) \<noteq> Some q) \<and>
        lookup mid q = Some (File c) \<longrightarrow> lookup fs' q = Some (File c)) \<and>
     (\<forall>pre e post. walk_files fs patch_dir = pre @ e # post \<and>
        (\<forall>e' \<in> set pre \<union> set post.
           resolve (target working_dir patch_dir e') \<noteq> resolve (target working_dir patch_dir e)) \<longrightarrow>
        (\<exists>t w p out. resolve (target working_dir patch_dir e) = Some t \<and>
           lookup mid t = Some (File w) \<and>
           read_text fs (join (fst e) (snd e)) = Inr p \<and>
           ap (universal_newlines w) p = Inr out \<and>
           lookup fs' t = Some (File out)))"
proof -
  let ?cd = clean_dir and ?wd = working_dir and ?pd = patch_dir and ?od = out_dir
  have d: "?pd \<noteq> ?wd" "?od \<noteq> ?wd" "?cd \<noteq> ?wd" using dist by auto
  from setup_working_layers [OF wf names dist run] obtain mid ses
    where ses: "lookup fs [?cd] = Some (Dir ses)"
      and pt: "if isdir fs ?pd then apply_patches ap ?wd ?pd mid = Inr fs' else fs' = mid"
      and keep: "\<And>y q. y \<noteq> ?wd \<Longrightarrow> lookup mid (y # q) = lookup fs (y # q)"
      and lay: "if isdir fs ?od
        then \<exists>oes res. lookup fs [?od] = Some (Dir oes) \<and> copy_entries oes ses = Inr res \<and>
               lookup mid [?wd] = Some (Dir res)
        else lookup mid [?wd] = Some (Dir ses)"
    by blast
  \<comment> \<open>output wins over clean\<close>
  have wins: "lookup mid (?wd # R) = Some (File oc)"
    if "isdir fs ?od" "lookup fs (?od # R) = Some (File oc)" "lookup fs (?cd # R) = Some (File c)"
    for R oc c
  proof -
    from lay that(1) obtain oes res where oes: "lookup fs [?od] = Some (Dir oes)"
      and ce: "copy_entries oes ses = Inr res" and m: "lookup mid [?wd] = Some (Dir res)"
      by auto
    have wfo: "wf_node (Dir oes)" using wf_lookup [OF wf oes] .
    have lo: "lookup (Dir oes) R = Some (File oc)"
      using that(2) lookup_Cons_via [of fs ?od R] oes by simp
    have lc: "lookup (Dir ses) R = Some (File c)"
      using that(3) lookup_Cons_via [of fs ?cd R] ses by simp
    then have nd: "\<forall>dd. lookup (Dir ses) R \<noteq> Some (Dir dd)" by simp
    from copy_entries_file [OF ce wfo lo nd] show ?thesis
      using lookup_Cons_via [of mid ?wd R] m by simp
  qed
  \<comment> \<open>the patches\<close>
  have wk: "walk_files mid ?pd = walk_files fs ?pd"
    using keep [OF d(1), of "[]"] names(3) by (rule walk_files_cong)
  have nwalk: "walk_files fs ?pd = []" if "\<not> isdir fs ?pd"
    using walk_not_dir [OF names(3) that] by (simp add: walk_files_def)
  have loop: "for_each (apply_patch_file ap ?wd ?pd) (walk_files fs ?pd) mid = Inr fs'"
  proof (cases "isdir fs ?pd")
    case True
    then show ?thesis using pt by (simp add: apply_patches_def wk)
  next
    case False
    then show ?thesis using pt nwalk by simp
  qed
  have frame: "lookup fs' q = Some (File c)"
    if "\<forall>e \<in> set (walk_files fs ?pd). resolve (target ?wd ?pd e) \<noteq> Some q"
      "lookup mid q = Some (File c)" for q c
    using patches_frame [OF loop that(1)] that(2) by (simp add: view_F_iff [symmetric])
  have entry: "\<exists>R. fst e = path_of ?pd R \<and> list_all valid_name (R @ [snd e])"
    if "e \<in> set (walk_files fs ?pd)" for e
  proof -
    obtain sd f where sf: "e = (sd, f)" by (cases e)
    from walk_files_entry [OF wf names(3) that [unfolded sf]] sf show ?thesis by auto
  qed
  have under: "\<exists>q. t = ?wd # q"
    if "e \<in> set (walk_files fs ?pd)" "resolve (target ?wd ?pd e) = Some t" for e t
  proof -
    from entry [OF that(1)] obtain R where R: "fst e = path_of ?pd R"
      "list_all valid_name (R @ [snd e])" by blast
    have "e = (path_of ?pd R, snd e)" using R(1) by (simp add: prod_eq_iff)
    with that(2) have "resolve (target ?wd ?pd (path_of ?pd R, snd e)) = Some t" by simp
    from target_under [OF names(2) names(3) R(2) this] show ?thesis .
  qed
  have single: "\<exists>t w p out. resolve (target ?wd ?pd e) = Some t \<and>
           lookup mid t = Some (File w) \<and>
           read_text fs (join (fst e) (snd e)) = Inr p \<and>
           ap (universal_newlines w) p = Inr out \<and>
           lookup fs' t = Some (File out)"
    if sp: "walk_files fs ?pd = pre @ e # post"
      and oth: "\<forall>e' \<in> set pre \<union> set post.
           resolve (target ?wd ?pd e') \<noteq> resolve (target ?wd ?pd e)"
    for pre e post
  proof -
    have e: "e \<in> set (walk_files fs ?pd)" using sp by simp
    from entry [OF e] obtain R where R: "fst e = path_of ?pd R"
      "list_all valid_name (R @ [snd e])" by blast
    have pe: "resolve (join (fst e) (snd e)) = Some (?pd # R @ [snd e])"
      unfolding R(1) by (rule entry_paths(2) [OF names(3) R(2) names(1)])
    have npe: "\<forall>e' \<in> set pre. resolve (target ?wd ?pd e') \<noteq> Some (?pd # R @ [snd e])"
    proof
      fix e' assume "e' \<in> set pre"
      then have "e' \<in> set (walk_files fs ?pd)" using sp by simp
      from under [OF this] d(1) show "resolve (target ?wd ?pd e') \<noteq> Some (?pd # R @ [snd e])"
        by auto
    qed
    from patch_single [OF loop [unfolded sp] oth pe npe]
    obtain t w p out where t: "resolve (target ?wd ?pd e) = Some t"
      and w: "view mid t = Some (F w)"
      and p: "read_text mid (join (fst e) (snd e)) = Inr p"
      and ao: "ap (universal_newlines w) p = Inr out"
      and r: "view fs' t = Some (F out)"
      by blast
    have "view mid (?pd # R @ [snd e]) = view fs (?pd # R @ [snd e])"
      using keep [OF d(1)] by (simp add: view_def)
    then have "read_text fs (join (fst e) (snd e)) = Inr p"
      using p pe by (simp add: read_text_view)
    with t w ao r show ?thesis by (auto simp: view_F_iff)
  qed
  from ses keep lay wins pt frame single show ?thesis
    by (intro exI [of _ mid] exI [of _ ses]) blast
qed

theorem setup_working_layers_order_witness:
  "setup_working (\<lambda>w p. Inr (w @ ''+'' @ p)) ''_clean'' ''_src'' ''_patches'' ''_out''
     (Dir [(''_clean'', Dir [(''a.txt'', File ''hello''), (''o.txt'', File ''clean o'')]),
           (''_out'', Dir [(''o.txt'', File ''from out''), (''n.txt'', File ''new'')]),
           (''_patches'', Dir [(''a.txt.patch'', File ''P'')]),
           (''_src'', Dir [(''junk.txt'', File ''old'')])])
   = Inr (Dir [(''_clean'', Dir [(''a.txt'', File ''hello''), (''o.txt'', File ''clean o'')]),
               (''_out'', Dir [(''o.txt'', File ''from out''), (''n.txt'', File ''new'')]),
               (''_patches'', Dir [(''a.txt.patch'', File ''P'')]),
               (''_src'', Dir [(''a.txt'', File ''hello+P''), (''o.txt'', File ''from out''),
                              (''n.txt'', File ''new'')])]) \<and>
   (\<exists>mid. lookup mid [''_src'', ''o.txt''] = Some (File ''from out'') \<and>
      lookup mid [''_clean''] = Some (Dir [(''a.txt'', File ''hello''), (''o.txt'', File ''clean o'')]) \<and>
      apply_patches (\<lambda>w p. Inr (w @ ''+'' @ p)) ''_src'' ''_patches'' mid
      = Inr (Dir [(''_clean'', Dir [(''a.txt'', File ''hello''), (''o.txt'', File ''clean o'')]),
               (''_out'', Dir [(''o.txt'', File ''from out''), (''n.txt'', File ''new'')]),
               (''_patches'', Dir [(''a.txt.patch'', File ''P'')]),
               (''_src'', Dir [(''a.txt'', File ''hello+P''), (''o.txt'', File ''from out''),
                              (''n.txt'', File ''new'')])]))"
proof -
  let ?ap = "\<lambda>w p. Inr (w @ ''+'' @ p) :: os_error + string"
  let ?cl = "Dir [(''a.txt'', File ''hello''), (''o.txt'', File ''clean o'')]"
  let ?ou = "Dir [(''o.txt'', File ''from out''), (''n.txt'', File ''new'')]"
  let ?pa = "Dir [(''a.txt.patch'', File ''P'')]"
  let ?fs = "Dir [(''_clean'', ?cl), (''_out'', ?ou), (''_patches'', ?pa),
                  (''_src'', Dir [(''junk.txt'', File ''old'')])]"
  let ?fs' = "Dir [(''_clean'', ?cl), (''_out'', ?ou), (''_patches'', ?pa),
               (''_src'', Dir [(''a.txt'', File ''hello+P''), (''o.txt'', File ''from out''),
                              (''n.txt'', File ''new'')])]"
  have wf: "wf_node ?fs" by (simp add: valid_name_def)
  have n: "valid_name ''_clean''" "valid_name ''_src''" "valid_name ''_patches''" "valid_name ''_out''"
    by (simp_all add: valid_name_def)
  have d: "distinct [''_clean'', ''_src'', ''_patches'', ''_out'']" by simp
  have run: "setup_working ?ap ''_clean'' ''_src'' ''_patches'' ''_out'' ?fs = Inr ?fs'"
    by code_simp
  have io: "isdir ?fs ''_out''" by code_simp
  have ip: "isdir ?fs ''_patches''" by code_simp
  from setup_working_layers_order [where ap = ?ap, OF wf n d run] obtain mid ses
    where keep: "\<forall>y q. y \<noteq> ''_src'' \<longrightarrow> lookup mid (y # q) = lookup ?fs (y # q)"
      and wins: "\<forall>R oc c. isdir ?fs ''_out'' \<and> lookup ?fs (''_out'' # R) = Some (File oc) \<and>
        lookup ?fs (''_clean'' # R) = Some (File c) \<longrightarrow>
        lookup mid (''_src'' # R) = Some (File oc)"
      and pt: "if isdir ?fs ''_patches'' then apply_patches ?ap ''_src'' ''_patches'' mid = Inr ?fs'
        else ?fs' = mid"
    by blast
  have 1: "lookup mid [''_src'', ''o.txt''] = Some (File ''from out'')"
    using wins [rule_format, of "[''o.txt'']" "''from out''" "''clean o''"] io by simp
  have 2: "lookup mid [''_clean''] = Some ?cl"
    using keep [rule_format, of "''_clean''" "[]"] by simp
  have 3: "apply_patches ?ap ''_src'' ''_patches'' mid = Inr ?fs'"
    using pt ip by simp
  from run 1 2 3 show ?thesis by blast
qed

text \<open>
  C3, for a patch directory given with a slash at its end. The walk of \<open>_patches/\<close>
  lists \<open>a.txt.patch\<close>, \<open>os.path.join\<close> adds no second slash, and the slice
  \<open>patch_path[(len(patch_dir) + 1):-(len(_PATCH_EXTENSION) + 1)]\<close> of \<open>apply_patches\<close>
  cuts one character too many at the front: the work file is \<open>_src/.txt\<close>. When the
  clean directory has a file of that name, \<open>setup_working\<close> returns with the patch
  applied to it and \<open>a.txt\<close> unpatched (with the patch directory given as \<open>_patches\<close>
  the patch goes to \<open>a.txt\<close>); when it has none, \<open>setup_working\<close> raises
  \<open>FileNotFoundError\<close>, whatever \<open>apply_patch\<close> is.
\<close>

theorem setup_working_trailing_separator:
  "walk_files
     (Dir [(''_clean'', Dir [(''a.txt'', File ''hello''), (''.txt'', File ''dot'')]),
           (''_patches'', Dir [(''a.txt.patch'', File ''P'')])]) ''_patches/''
   = [(''_patches/'', ''a.txt.patch'')] \<and>
   join ''_patches/'' ''a.txt.patch'' = ''_patches/a.txt.patch'' \<and>
   patch_rel_path ''_patches/'' ''_patches/a.txt.patch'' = ''.txt'' \<and>
   setup_working (\<lambda>w p. Inr (w @ ''+'' @ p)) ''_clean'' ''_src'' ''_patches/'' ''_out''
     (Dir [(''_clean'', Dir [(''a.txt'', File ''hello''), (''.txt'', File ''dot'')]),
           (''_patches'', Dir [(''a.txt.patch'', File ''P'')])])
   = Inr (Dir [(''_clean'', Dir [(''a.txt'', File ''hello''), (''.txt'', File ''dot'')]),
               (''_patches'', Dir [(''a.txt.patch'', File ''P'')]),
               (''_src'', Dir [(''a.txt'', File ''hello''), (''.txt'', File ''dot+P'')])]) \<and>
   setup_working (\<lambda>w p. Inr (w @ ''+'' @ p)) ''_clean'' ''_src'' ''_patches'' ''_out''
     (Dir [(''_clean'', Dir [(''a.txt'', File ''hello''), (''.txt'', File ''dot'')]),
           (''_patches'', Dir [(''a.txt.patch'', File ''P'')])])
   = Inr (Dir [(''_clean'', Dir [(''a.txt'', File ''hello''), (''.txt'', File ''dot'')]),
               (''_patches'', Dir [(''a.txt.patch'', File ''P'')]),
               (''_src'', Dir [(''a.txt'', File ''hello+P''), (''.txt'', File ''dot'')])]) \<and>
   setup_working ap ''_clean'' ''_src'' ''_patches/'' ''_out''
     (Dir [(''_clean'', Dir [(''a.txt'', File ''hello'')]),
           (''_patches'', Dir [(''a.txt.patch'', File ''P'')])])
   = Inl FileNotFoundError"
  by code_simp

section \<open>Properties of the patcher\<close>

lemma concat_lines_of: "concat (lines_of s) = s"
  by (induction s) (auto split: list.splits)

lemma lines_of_content: "l \<in> set (lines_of s) \<Longrightarrow> content_line l"
  by (induction s arbitrary: l) (auto simp: content_line_def split: list.splits if_splits)

lemma lines_of_proper_Cons:
  assumes "proper_line l"
  shows "lines_of (l @ s) = l # lines_of s"
proof -
  from assms obtain b where l: "l = b @ [NL]" and b: "NL \<notin> set b"
    unfolding proper_line_def by (metis append_butlast_last_id)
  have "lines_of (b @ [NL] @ s) = (b @ [NL]) # lines_of s" using b
    by (induction b) auto
  then show ?thesis by (simp add: l)
qed

lemma lines_of_concat:
  "\<forall>l \<in> set pl. proper_line l \<Longrightarrow> lines_of (concat pl) = pl"
  by (induction pl) (simp_all add: lines_of_proper_Cons)

lemma of_char_digit: "d < 10 \<Longrightarrow> (of_char (digit d) :: nat) = 48 + d"
  by (simp add: digit_def)

lemma is_digit_digit: "d < 10 \<Longrightarrow> is_digit (digit d)"
  by (simp add: is_digit_def of_char_digit)

lemma show_nat_digits: "\<forall>c \<in> set (show_nat n). is_digit c"
proof (induction n rule: show_nat.induct)
  case (1 n)
  show ?case
  proof (cases "n < 10")
    case True
    then show ?thesis by (subst show_nat.simps) (simp add: is_digit_digit)
  next
    case False
    then show ?thesis using 1
      by (subst show_nat.simps) (simp add: is_digit_digit)
  qed
qed

lemma show_nat_nonempty: "show_nat n \<noteq> []"
  by (subst show_nat.simps) simp

lemma parse_nat_snoc: "parse_nat (ds @ [c]) = 10 * parse_nat ds + (of_char c - 48)"
  by (simp add: parse_nat_def)

lemma parse_show_nat: "parse_nat (show_nat n) = n"
proof (induction n rule: show_nat.induct)
  case (1 n)
  show ?case
  proof (cases "n < 10")
    case True
    then show ?thesis
      by (subst show_nat.simps) (simp add: parse_nat_def of_char_digit)
  next
    case False
    then have "parse_nat (show_nat (n div 10)) = n div 10" using 1 by simp
    with False show ?thesis
      by (subst show_nat.simps) (simp add: parse_nat_snoc of_char_digit)
  qed
qed

lemma read_show_nat:
  assumes "rest = [] \<or> \<not> is_digit (hd rest)"
  shows "read_nat (show_nat n @ rest) = Some (n, rest)"
proof -
  have d: "\<forall>c \<in> set (show_nat n). is_digit c" by (rule show_nat_digits)
  have t: "takeWhile is_digit (show_nat n @ rest) = show_nat n"
    using d assms by (cases rest) (simp_all add: takeWhile_append2 takeWhile_eq_all_conv [THEN iffD2])
  have dr: "dropWhile is_digit (show_nat n @ rest) = rest"
    using d assms by (cases rest) (simp_all add: dropWhile_append2)
  show ?thesis
    by (simp add: read_nat_def t dr Let_def show_nat_nonempty parse_show_nat)
qed

lemma expect_append: "expect p (p @ s) = Some s"
  by (simp add: expect_def)

lemma not_digit: "\<not> is_digit CHR '',''" "\<not> is_digit CHR '' ''"
  by (simp_all add: is_digit_def)

lemma read_show_nat_Cons:
  "\<not> is_digit c \<Longrightarrow> read_nat (show_nat n @ c # rest) = Some (n, c # rest)"
  by (rule read_show_nat) simp

lemma parse_hunk_header: "parse_header (hunk_header i n m) = Some (i, n, m)"
  by (simp add: parse_header_def hunk_header_def expect_def read_show_nat_Cons not_digit)

lemma marker_proper: "proper_line marker"
  by (simp add: proper_line_def marker_def NL_def)

lemma render_line_proper:
  assumes "content_line l" "c \<noteq> NL"
  shows "\<forall>x \<in> set (render_line c l). proper_line x"
proof (cases "last l = NL")
  case True
  with assms show ?thesis
    by (simp add: render_line_def content_line_def proper_line_def)
next
  case False
  with assms have "NL \<notin> set l"
    by (metis append_butlast_last_id content_line_def in_set_butlast_appendI insert_iff
        list.set(2) rotate1.simps(2) set_rotate1)
  with False assms marker_proper show ?thesis
    by (simp add: render_line_def proper_line_def butlast_append)
qed

lemma render_lines_proper:
  assumes "\<forall>l \<in> set ls. content_line l" "c \<noteq> NL"
  shows "\<forall>x \<in> set (concat (map (render_line c) ls)). proper_line x"
  using assms render_line_proper by auto

lemma is_digit_not_NL: "is_digit c \<Longrightarrow> c \<noteq> NL"
  by (auto simp: is_digit_def NL_def)

lemma show_nat_no_NL: "NL \<notin> set (show_nat n)"
  using show_nat_digits [of n] is_digit_not_NL by blast

lemma hunk_header_proper: "proper_line (hunk_header i n m)"
proof -
  have "hunk_header i n m = (''@@ -'' @ show_nat i @ '','' @ show_nat n @ '' +'' @ show_nat i
          @ '','' @ show_nat m @ '' @@'') @ [NL]"
    by (simp add: hunk_header_def)
  moreover have "NL \<notin> set (''@@ -'' @ show_nat i @ '','' @ show_nat n @ '' +'' @ show_nat i
          @ '','' @ show_nat m @ '' @@'')"
    by (simp add: show_nat_no_NL) (simp add: NL_def)
  ultimately show ?thesis
    unfolding proper_line_def by (metis butlast_snoc last_snoc snoc_eq_iff_butlast)
qed

lemma file_header_proper:
  assumes "NL \<notin> set filename" "NL \<notin> set time" "NL \<notin> set pre"
  shows "proper_line (pre @ filename @ [CHR 0x09] @ time @ [NL])"
proof -
  have "pre @ filename @ [CHR 0x09] @ time @ [NL] = (pre @ filename @ [CHR 0x09] @ time) @ [NL]"
    by simp
  moreover have "NL \<notin> set (pre @ filename @ [CHR 0x09] @ time)"
    using assms by (simp add: NL_def)
  ultimately show ?thesis
    unfolding proper_line_def by (metis butlast_snoc last_snoc snoc_eq_iff_butlast)
qed

lemma patch_lines_proper:
  assumes "NL \<notin> set filename" "NL \<notin> set time"
    and "\<forall>l \<in> set removed. content_line l" "\<forall>l \<in> set added. content_line l"
  shows "\<forall>x \<in> set (patch_lines filename time (i, removed, added)). proper_line x"
proof -
  have 1: "proper_line (''--- '' @ filename @ [CHR 0x09] @ time @ [NL])"
    by (rule file_header_proper) (use assms in \<open>simp_all add: NL_def\<close>)
  have 2: "proper_line (''+++ '' @ filename @ [CHR 0x09] @ time @ [NL])"
    by (rule file_header_proper) (use assms in \<open>simp_all add: NL_def\<close>)
  have 3: "\<forall>x \<in> set (concat (map (render_line CHR ''-'') removed)). proper_line x"
    by (rule render_lines_proper) (use assms in \<open>simp_all add: NL_def\<close>)
  have 4: "\<forall>x \<in> set (concat (map (render_line CHR ''+'') added)). proper_line x"
    by (rule render_lines_proper) (use assms in \<open>simp_all add: NL_def\<close>)
  show ?thesis
    unfolding patch_lines_def using 1 2 3 4 hunk_header_proper [of i "length removed" "length added"]
    by (simp del: append.simps) auto
qed

lemma rendered_head:
  assumes "c \<noteq> CHR 0x5C" "rest = [] \<or> hd rest \<noteq> marker"
  shows "concat (map (render_line c) ls) @ rest = []
         \<or> hd (concat (map (render_line c) ls) @ rest) \<noteq> marker"
proof (cases ls)
  case Nil
  with assms show ?thesis by simp
next
  case (Cons l ls')
  with assms show ?thesis
    by (simp add: render_line_def marker_def)
qed

lemma take_lines_render:
  assumes "c \<noteq> CHR 0x5C" "rest = [] \<or> hd rest \<noteq> marker"
  shows "take_lines c (length ls) (concat (map (render_line c) ls) @ rest) = Some (ls, rest)"
proof (induction ls)
  case Nil
  show ?case by simp
next
  case (Cons l ls)
  let ?Q = "concat (map (render_line c) ls) @ rest"
  have q: "?Q = [] \<or> hd ?Q \<noteq> marker" using assms by (rule rendered_head)
  show ?case
  proof (cases "l \<noteq> [] \<and> last l = NL")
    case True
    then have "concat (map (render_line c) (l # ls)) @ rest = (c # l) # ?Q"
      by (simp add: render_line_def)
    then show ?thesis using Cons q by auto
  next
    case False
    then have "concat (map (render_line c) (l # ls)) @ rest = (c # l @ [NL]) # marker # ?Q"
      by (auto simp: render_line_def)
    then show ?thesis using Cons by (simp add: butlast_append)
  qed
qed

lemma parse_patch_lines:
  "parse_patch (patch_lines filename time (i, removed, added)) = Some (i, removed, added)"
proof -
  have r: "concat (map (render_line CHR ''+'') added) @ [] = []
           \<or> hd (concat (map (render_line CHR ''+'') added) @ []) \<noteq> marker"
    by (rule rendered_head) simp_all
  have 1: "take_lines CHR ''-'' (length removed)
             (concat (map (render_line CHR ''-'') removed) @ concat (map (render_line CHR ''+'') added) @ [])
           = Some (removed, concat (map (render_line CHR ''+'') added) @ [])"
    by (rule take_lines_render) (use r in simp_all)
  have 2: "take_lines CHR ''+'' (length added) (concat (map (render_line CHR ''+'') added) @ [])
           = Some (added, [])"
    by (rule take_lines_render) simp_all
  show ?thesis
    using 1 2 by (simp add: parse_patch_def patch_lines_def parse_hunk_header)
qed

lemma common_prefix_take:
  "take (length (common_prefix xs ys)) xs = common_prefix xs ys"
  "take (length (common_prefix xs ys)) ys = common_prefix xs ys"
  by (induction xs ys rule: common_prefix.induct) auto

lemma common_suffix_drop:
  assumes "s = common_prefix (rev xs) (rev ys)"
  shows "drop (length xs - length s) xs = rev s" "drop (length ys - length s) ys = rev s"
proof -
  have "rev (take (length s) (rev xs)) = rev s" "rev (take (length s) (rev ys)) = rev s"
    using assms common_prefix_take [of "rev xs" "rev ys"] by simp_all
  then show "drop (length xs - length s) xs = rev s" "drop (length ys - length s) ys = rev s"
    by (simp_all add: rev_take)
qed

lemma hunk_of_decomp:
  assumes "hunk_of la lb = (i, removed, added)"
  shows "\<exists>p s. i = length p + 1 \<and> la = p @ removed @ s \<and> lb = p @ added @ s"
proof -
  define p where "p = common_prefix la lb"
  define ra where "ra = drop (length p) la"
  define rb where "rb = drop (length p) lb"
  define s where "s = common_prefix (rev ra) (rev rb)"
  have h: "i = length p + 1" "removed = take (length ra - length s) ra"
    "added = take (length rb - length s) rb"
    using assms by (simp_all add: hunk_of_def Let_def p_def ra_def rb_def s_def)
  have la: "la = p @ ra" and lb: "lb = p @ rb"
    using common_prefix_take [of la lb] append_take_drop_id [of "length p" la]
      append_take_drop_id [of "length p" lb]
    by (simp_all add: p_def ra_def rb_def)
  have "ra = removed @ rev s" "rb = added @ rev s"
    using common_suffix_drop [OF s_def] h
      append_take_drop_id [of "length ra - length s" ra]
      append_take_drop_id [of "length rb - length s" rb]
    by simp_all
  with la lb h(1) show ?thesis by blast
qed

text \<open>A text compared with itself gives the empty patch, and the empty patch leaves a text as
  it is.\<close>

lemma create_same: "create_patch a a filename time = []"
  by (simp add: create_patch_def)

lemma apply_empty: "apply_patch a [] = Inr a"
  by (simp add: apply_patch_def)

text \<open>
  Claim C1 (round trip). For all texts \<open>a\<close> (the clean file) and \<open>b\<close> (the working file),
  applying to \<open>a\<close> the patch made by comparing \<open>a\<close> with \<open>b\<close> returns, without an error,
  exactly \<open>b\<close>. The file name and the time written in the header of the patch are on one
  line each, as the path of a file and the text of a date are.
\<close>

theorem patch_round_trip:
  assumes "NL \<notin> set filename" "NL \<notin> set time"
  shows "apply_patch a (create_patch a b filename time) = Inr b"
proof (cases "a = b")
  case True
  then show ?thesis by (simp add: create_patch_def apply_patch_def)
next
  case False
  obtain i removed added where h: "hunk_of (lines_of a) (lines_of b) = (i, removed, added)"
    by (cases "hunk_of (lines_of a) (lines_of b)") auto
  obtain p s where d: "i = length p + 1" "lines_of a = p @ removed @ s"
      "lines_of b = p @ added @ s"
    using hunk_of_decomp [OF h] by blast
  have c: "\<forall>l \<in> set removed. content_line l" "\<forall>l \<in> set added. content_line l"
    using d lines_of_content [of _ a] lines_of_content [of _ b] by auto
  let ?pl = "patch_lines filename time (i, removed, added)"
  have pl: "lines_of (concat ?pl) = ?pl"
    by (rule lines_of_concat) (rule patch_lines_proper [OF assms c])
  have ne: "concat ?pl \<noteq> []"
    by (simp add: patch_lines_def)
  have cp: "create_patch a b filename time = concat ?pl"
    using False by (simp add: create_patch_def h)
  have pp: "parse_patch (lines_of (concat ?pl)) = Some (i, removed, added)"
    unfolding pl by (rule parse_patch_lines)
  have res: "concat (p @ added @ s) = b"
    using concat_lines_of [of b] d(3) by simp
  have "apply_patch a (concat ?pl)
        = (let tls = lines_of a
           in if 1 \<le> i \<and> take (length removed) (drop (i - 1) tls) = removed
              then Inr (concat (take (i - 1) tls @ added @ drop (i - 1 + length removed) tls))
              else Inl PatchError)"
    unfolding apply_patch_def pp by (simp only: ne if_False option.case prod.case)
  also have "\<dots> = Inr (concat (p @ added @ s))"
    unfolding d(1,2) Let_def by simp
  finally show ?thesis
    unfolding cp res .
qed

theorem patch_round_trip_witness:
  "NL \<notin> set ''a/b.txt'' \<and> NL \<notin> set ''2024-01-01''
   \<and> apply_patch (''one'' @ [NL] @ ''two'' @ [NL] @ ''three'')
         (create_patch (''one'' @ [NL] @ ''two'' @ [NL] @ ''three'')
            (''one'' @ [NL] @ ''2'' @ [NL] @ ''three'' @ [NL]) ''a/b.txt'' ''2024-01-01'')
       = Inr (''one'' @ [NL] @ ''2'' @ [NL] @ ''three'' @ [NL])"
  using patch_round_trip [of "''a/b.txt''" "''2024-01-01''"
      "''one'' @ [NL] @ ''two'' @ [NL] @ ''three''"
      "''one'' @ [NL] @ ''2'' @ [NL] @ ''three'' @ [NL]"]
  by (simp add: NL_def)

end
